theory Spec2Isabelle
  imports Main "HOL-Library.Sublist"
begin

section \<open>Strings and the JavaScript string primitives the converters use\<close>

text \<open>
  JavaScript strings are modelled as \<^typ>\<open>string\<close>, one \<^typ>\<open>char\<close> per code unit: the
  model covers the texts whose code units are below 256. Without the \<^verbatim>\<open>u\<close> flag
  \<^verbatim>\<open>\d\<close> is \<^verbatim>\<open>[0-9]\<close> and \<^verbatim>\<open>\w\<close> is \<^verbatim>\<open>[A-Za-z0-9_]\<close>. The white space of
  \<^verbatim>\<open>\s\<close> and of \<^verbatim>\<open>trim\<close> is, among these code units, U+0009 to U+000D, the space
  and the no-break space U+00A0.
\<close>

definition is_digit :: "char \<Rightarrow> bool" where
  "is_digit c = (c \<in> set ''0123456789'')"

text \<open>\<^verbatim>\<open>s.replace(/c/g, r)\<close> for a one-character pattern: every occurrence of
  the character is replaced, the rest is copied.\<close>

definition replace_char :: "char \<Rightarrow> string \<Rightarrow> string \<Rightarrow> string" where
  "replace_char c r s = concat (map (\<lambda>x. if x = c then r else [x]) s)"

text \<open>
  \<^verbatim>\<open>s.replace(rx, ...)\<close> for a global regular expression: the text is scanned from
  the left; where the pattern matches, the replacement is emitted and the scan goes on
  behind the match, elsewhere one character is copied. The matcher \<open>m\<close> tells, for the
  text that starts at the current position, the replacement and the text behind the
  match. Every pattern of the converters matches at least one character; a matcher
  that consumed nothing would be treated as no match.
\<close>

function replace_all :: "(string \<Rightarrow> (string \<times> string) option) \<Rightarrow> string \<Rightarrow> string" where
  "replace_all m [] = []"
| "replace_all m (c # cs) =
     (case m (c # cs) of
        Some (out, rest) \<Rightarrow>
          if length rest < length (c # cs) then out @ replace_all m rest
          else c # replace_all m cs
      | None \<Rightarrow> c # replace_all m cs)"
  by pat_completeness auto
termination
  by (relation "measure (\<lambda>(m, s). length s)") auto

text \<open>Whether the pattern matches anywhere in the text (\<^verbatim>\<open>rx.test(s)\<close>).\<close>

fun has_match :: "(string \<Rightarrow> (string \<times> string) option) \<Rightarrow> string \<Rightarrow> bool" where
  "has_match m [] = False"
| "has_match m (c # cs) = (m (c # cs) \<noteq> None \<or> has_match m cs)"

subsection \<open>escapeHTML (index.js, lines 32-37)\<close>

definition escapeHTML :: "string \<Rightarrow> string" where
  "escapeHTML s =
     replace_char (CHR 0x27) ''&#39;''
       (replace_char CHR ''\"'' ''&quot;''
         (replace_char CHR ''>'' ''&gt;''
           (replace_char CHR ''<'' ''&lt;''
             (replace_char CHR ''&'' ''&amp;'' s))))"

text \<open>The five entities the function emits.\<close>

definition entities :: "string list" where
  "entities = [''&amp;'', ''&lt;'', ''&gt;'', ''&quot;'', ''&#39;'']"

text \<open>What one source character has become after the five passes.\<close>

definition esc_char :: "char \<Rightarrow> string" where
  "esc_char c =
     (if c = CHR ''&'' then ''&amp;''
      else if c = CHR ''<'' then ''&lt;''
      else if c = CHR ''>'' then ''&gt;''
      else if c = CHR ''\"'' then ''&quot;''
      else if c = CHR 0x27 then ''&#39;''
      else [c])"

text \<open>Every ampersand of a string starts one of the entities: the recursive form.\<close>

fun amp_ok :: "string \<Rightarrow> bool" where
  "amp_ok [] = True"
| "amp_ok (c # cs) =
     ((c = CHR ''&'' \<longrightarrow> (\<exists>e \<in> set entities. prefix e (c # cs))) \<and> amp_ok cs)"

text \<open>
  Two properties of a matcher, used in the proofs: it consumes at least one character,
  and no match reaches across the character \<open>c\<close> (a match that starts in front of
  \<open>c\<close> ends in front of it, and is found there whatever follows).
\<close>

definition consuming :: "(string \<Rightarrow> (string \<times> string) option) \<Rightarrow> bool" where
  "consuming m = (\<forall>s out rest. m s = Some (out, rest) \<longrightarrow> length rest < length s)"

definition barrier :: "(string \<Rightarrow> (string \<times> string) option) \<Rightarrow> char \<Rightarrow> bool" where
  "barrier m c =
     (\<forall>u r. u \<noteq> [] \<longrightarrow>
        m (u @ c # r) = map_option (\<lambda>(out, rest). (out, rest @ c # r)) (m u))"

text \<open>A replacement that is shorter than what it replaces.\<close>

definition shrinking :: "(string \<Rightarrow> (string \<times> string) option) \<Rightarrow> bool" where
  "shrinking m =
     (\<forall>s out rest. m s = Some (out, rest) \<longrightarrow> length out + length rest < length s)"

subsection \<open>Duplicated markers: normalizeRefs (index.js, 44-47) and cleanupArtifacts (converter.js, 162-175)\<close>

text \<open>
  \<^verbatim>\<open>(\d+)F\1F\<close> at the start of a text: the digits are the longest run (a shorter
  run is followed by a digit, not by \<^verbatim>\<open>F\<close>), then \<^verbatim>\<open>F\<close>, the same digits and
  \<^verbatim>\<open>F\<close> again. The result is the numeral and the text behind the match.
\<close>

definition dup_at :: "string \<Rightarrow> (string \<times> string) option" where
  "dup_at s =
     (let ds = takeWhile is_digit s; r = dropWhile is_digit s
      in if ds \<noteq> [] \<and> prefix (''F'' @ ds @ ''F'') r
         then Some (ds, drop (length ds + 2) r) else None)"

text \<open>\<^verbatim>\<open>NORMALIZE_RX = /(\d+)F\1F/g\<close> with the replacement \<^verbatim>\<open>'$1F'\<close>.\<close>

definition dup_repl :: "string \<Rightarrow> (string \<times> string) option" where
  "dup_repl s = map_option (\<lambda>(n, rest). (n @ ''F'', rest)) (dup_at s)"

definition normalizeRefs :: "string \<Rightarrow> string" where
  "normalizeRefs txt = replace_all dup_repl txt"

text \<open>\<^verbatim>\<open>\[(\d+)\]\<close> at the start of a text: the numeral and the text behind.\<close>

definition bracket_num :: "string \<Rightarrow> (string \<times> string) option" where
  "bracket_num s =
     (case s of
        [] \<Rightarrow> None
      | c # r \<Rightarrow>
          (let ds = takeWhile is_digit r; r1 = dropWhile is_digit r
           in if c = CHR ''['' \<and> ds \<noteq> [] \<and> prefix '']'' r1
              then Some (ds, drop 1 r1) else None))"

text \<open>
  \<^verbatim>\<open>/(\d+)F\1F(?:\[\d+\])?/g\<close> of \<open>cleanupArtifacts\<close>, replaced by the empty string:
  the duplicated marker, and a bracketed number behind it when there is one.
\<close>

definition artifact_repl :: "string \<Rightarrow> (string \<times> string) option" where
  "artifact_repl s =
     map_option
       (\<lambda>(n, rest). ([], case bracket_num rest of Some (k, rest') \<Rightarrow> rest' | None \<Rightarrow> rest))
       (dup_at s)"

text \<open>What \<open>cleanupArtifacts\<close> does to the text of one text node.\<close>

definition cleanupArtifacts :: "string \<Rightarrow> string" where
  "cleanupArtifacts original = replace_all artifact_repl original"

subsection \<open>Marker substitution: processConlangInText (index.js, 128-146)\<close>

text \<open>
  The footnote mapping is a JavaScript \<^verbatim>\<open>Map\<close> from numeral strings to annotation
  texts: an association list in insertion order with one entry per key.
\<close>

type_synonym jsmap = "(string \<times> string) list"

definition map_get :: "jsmap \<Rightarrow> string \<Rightarrow> string option" where
  "map_get m k = map_of m k"

text \<open>\<^verbatim>\<open>map.set(k, v)\<close>: an existing key keeps its place and takes the new value, a new
  key is appended.\<close>

fun map_set :: "jsmap \<Rightarrow> string \<Rightarrow> string \<Rightarrow> jsmap" where
  "map_set [] k v = [(k, v)]"
| "map_set ((k', v') # m) k v = (if k' = k then (k, v) # m else (k', v') # map_set m k v)"

text \<open>
  \<^verbatim>\<open>/\[(\d+)F?\]|(\d+)F/g\<close> at the start of a text. First alternative: an opening
  bracket, the longest run of digits, an optional \<^verbatim>\<open>F\<close> and the closing bracket.
  Second alternative: the longest run of digits and \<^verbatim>\<open>F\<close>. The result is
  \<^verbatim>\<open>g1 || g2\<close> and the text behind the match.
\<close>

definition ref_at :: "string \<Rightarrow> (string \<times> string) option" where
  "ref_at s =
     (case s of
        [] \<Rightarrow> None
      | c # r \<Rightarrow>
          if c = CHR ''[''
          then (let ds = takeWhile is_digit r; r1 = dropWhile is_digit r
                in if ds = [] then None
                   else if prefix ''F]'' r1 then Some (ds, drop 2 r1)
                   else if prefix '']'' r1 then Some (ds, drop 1 r1)
                   else None)
          else (let ds = takeWhile is_digit s; r1 = dropWhile is_digit s
                in if ds \<noteq> [] \<and> prefix ''F'' r1 then Some (ds, drop 1 r1) else None))"

text \<open>The markup of one annotation span: class, hover payload (the \<^verbatim>\<open>data-tr\<close>
  attribute) and visible text.\<close>

definition span_html :: "string \<Rightarrow> string \<Rightarrow> string \<Rightarrow> string" where
  "span_html cls payload visible =
     ''<span class=\"'' @ cls @ ''\" data-tr=\"'' @ payload @ ''\">'' @ visible @ ''</span>''"

text \<open>The callback of the substitution: \<^verbatim>\<open>!trans\<close> (here \<open>tr\<close>) holds for a numeral without
  entry and for an entry that is the empty string.\<close>

definition conlang_span :: "jsmap \<Rightarrow> string \<Rightarrow> string" where
  "conlang_span footMap num =
     (case map_get footMap num of
        None \<Rightarrow>
          span_html ''conlang missing'' (''[translation missing for '' @ num @ '']'') (num @ ''F'')
      | Some tr \<Rightarrow>
          if tr = []
          then span_html ''conlang missing'' (''[translation missing for '' @ num @ '']'')
                 (num @ ''F'')
          else span_html ''conlang'' (escapeHTML tr) (num @ ''F''))"

definition conlang_repl :: "jsmap \<Rightarrow> string \<Rightarrow> (string \<times> string) option" where
  "conlang_repl footMap s =
     map_option (\<lambda>(num, rest). (conlang_span footMap num, rest)) (ref_at s)"

definition processConlangInText :: "string \<Rightarrow> jsmap \<Rightarrow> string" where
  "processConlangInText text footMap =
     (let processed = replace_all dup_repl text
      in replace_all (conlang_repl footMap) processed)"

subsection \<open>Tagging of bracketed interface text (index.js, 727-740)\<close>

text \<open>\<^verbatim>\<open>.\<close> matches every character but a line terminator.\<close>

definition is_line_terminator :: "char \<Rightarrow> bool" where
  "is_line_terminator c = (c = CHR 0x0A \<or> c = CHR 0x0D)"

text \<open>\<^verbatim>\<open>/\[.*?\]/\<close> at the start of a text.\<close>

definition bracket_any_at :: "string \<Rightarrow> (string \<times> string) option" where
  "bracket_any_at s =
     (case s of
        [] \<Rightarrow> None
      | c # r \<Rightarrow>
          (let body = takeWhile (\<lambda>x. x \<noteq> CHR '']'' \<and> \<not> is_line_terminator x) r;
               r1 = dropWhile (\<lambda>x. x \<noteq> CHR '']'' \<and> \<not> is_line_terminator x) r
           in if c = CHR ''['' \<and> prefix '']'' r1 then Some (body, drop 1 r1) else None))"

text \<open>\<^verbatim>\<open>/\[([^\]]+)\]/g\<close> at the start of a text: the bracket contents and the
  text behind the closing bracket.\<close>

definition ui_at :: "string \<Rightarrow> (string \<times> string) option" where
  "ui_at s =
     (case s of
        [] \<Rightarrow> None
      | c # r \<Rightarrow>
          (let body = takeWhile (\<lambda>x. x \<noteq> CHR '']'') r;
               r1 = dropWhile (\<lambda>x. x \<noteq> CHR '']'') r
           in if c = CHR ''['' \<and> body \<noteq> [] \<and> r1 \<noteq> [] then Some (body, drop 1 r1)
              else None))"

text \<open>\<^verbatim>\<open>/^\d+F?$/.test(content)\<close>.\<close>

definition is_ref_content :: "string \<Rightarrow> bool" where
  "is_ref_content content =
     (let ds = takeWhile is_digit content; r = dropWhile is_digit content
      in ds \<noteq> [] \<and> (r = [] \<or> r = ''F''))"

text \<open>
  The callback returns the match for a reference marker and otherwise the string
  \<^verbatim>\<open><span class="ui">[$1]</span>\<close>. JavaScript expands \<^verbatim>\<open>$1\<close> in a replacement
  string only, never in the value a replacement function returns, so the two
  characters \<^verbatim>\<open>$1\<close> are emitted as they are.
\<close>

definition ui_repl :: "string \<Rightarrow> (string \<times> string) option" where
  "ui_repl s =
     map_option
       (\<lambda>(content, rest).
          (if is_ref_content content then ''['' @ content @ '']''
           else ''<span class=\"ui\">[$1]</span>'', rest))
       (ui_at s)"

text \<open>The new markup of one paragraph; \<open>html\<close> is the paragraph's inner markup.\<close>

definition tagUI :: "string \<Rightarrow> string" where
  "tagUI html =
     (if html \<noteq> [] \<and> has_match bracket_any_at html then replace_all ui_repl html else html)"

subsection \<open>More string primitives\<close>

text \<open>\<^verbatim>\<open>\s\<close>: tab, line feed, vertical tab, form feed, carriage return, space and
  no-break space.\<close>

definition is_space :: "char \<Rightarrow> bool" where
  "is_space c =
     (c \<in> {CHR 0x09, CHR 0x0A, CHR 0x0B, CHR 0x0C, CHR 0x0D, CHR '' '', CHR 0xA0})"

text \<open>\<^verbatim>\<open>s.trim()\<close> removes the white space at both ends.\<close>

definition trim :: "string \<Rightarrow> string" where
  "trim s = rev (dropWhile is_space (rev (dropWhile is_space s)))"

text \<open>\<^verbatim>\<open>s.includes(pat)\<close>, and an unanchored literal pattern.\<close>

fun contains :: "string \<Rightarrow> string \<Rightarrow> bool" where
  "contains pat [] = (pat = [])"
| "contains pat (c # cs) = (prefix pat (c # cs) \<or> contains pat cs)"

text \<open>The white-space separated tokens of a \<^verbatim>\<open>class\<close> attribute.\<close>

fun tokens :: "string \<Rightarrow> string \<Rightarrow> string list" where
  "tokens acc [] = (if acc = [] then [] else [acc])"
| "tokens acc (c # cs) =
     (if is_space c then (if acc = [] then tokens [] cs else acc # tokens [] cs)
      else tokens (acc @ [c]) cs)"

definition has_class :: "string \<Rightarrow> string \<Rightarrow> bool" where
  "has_class cls attr_value = (cls \<in> set (tokens [] attr_value))"

text \<open>\<^verbatim>\<open>/^\d+$/.test(s)\<close>.\<close>

definition is_number :: "string \<Rightarrow> bool" where
  "is_number s = (s \<noteq> [] \<and> list_all is_digit s)"

subsection \<open>The parsed document\<close>

text \<open>
  The document that \<^verbatim>\<open>cheerio.load\<close> hands to the functions: text nodes and
  elements with a lower-case tag name, attributes and children. Parsing and
  serializing are the library's and are not modelled; the functions below work on the
  children of the \<^verbatim>\<open>body\<close>.
\<close>

datatype node = Text string | Element string "(string \<times> string) list" "node list"

text \<open>\<^verbatim>\<open>$(el).attr(name) || ''\<close>.\<close>

fun attr :: "node \<Rightarrow> string \<Rightarrow> string" where
  "attr (Text s) k = []"
| "attr (Element t as cs) k = (case map_of as k of Some v \<Rightarrow> v | None \<Rightarrow> [])"

fun tag :: "node \<Rightarrow> string" where
  "tag (Text s) = []"
| "tag (Element t as cs) = t"

text \<open>\<^verbatim>\<open>$(el).text()\<close>: the text nodes below the element, concatenated.\<close>

fun text_of :: "node \<Rightarrow> string" where
  "text_of (Text s) = s"
| "text_of (Element t as cs) = concat (map text_of cs)"

text \<open>The element itself and the elements below it, in document order.\<close>

fun elems :: "node \<Rightarrow> node list" where
  "elems (Text s) = []"
| "elems (Element t as cs) = Element t as cs # concat (map elems cs)"

text \<open>\<^verbatim>\<open>$(el).find(sel)\<close> ranges over the elements below \<open>el\<close>; \<^verbatim>\<open>$(sel)\<close> over all
  elements of the document.\<close>

definition descendants :: "node \<Rightarrow> node list" where
  "descendants el = tl (elems el)"

definition all_elems :: "node list \<Rightarrow> node list" where
  "all_elems doc = concat (map elems doc)"

text \<open>Every element below \<open>el\<close> with its parent, in document order.\<close>

fun with_parent :: "node \<Rightarrow> (node \<times> node) list" where
  "with_parent (Text s) = []"
| "with_parent (Element t as cs) =
     concat (map (\<lambda>c. (case c of Text s \<Rightarrow> [] | Element t' as' cs' \<Rightarrow> [(c, Element t as cs)])
                        @ with_parent c) cs)"

text \<open>\<^verbatim>\<open>$(el).remove()\<close> for every element that satisfies \<open>P\<close>.\<close>

fun remove_where :: "(node \<Rightarrow> bool) \<Rightarrow> node \<Rightarrow> node" where
  "remove_where P (Text s) = Text s"
| "remove_where P (Element t as cs) =
     Element t as (map (remove_where P) (filter (\<lambda>c. \<not> P c) cs))"

definition remove_all :: "(node \<Rightarrow> bool) \<Rightarrow> node list \<Rightarrow> node list" where
  "remove_all P doc = map (remove_where P) (filter (\<lambda>c. \<not> P c) doc)"

subsection \<open>parseAndCleanFootnotes (index.js, 490-542)\<close>

text \<open>The selector \<^verbatim>\<open>div[id*="footnote"], div[class*="footnote"],
  section[id*="footnote"], section[class*="footnote"]\<close>.\<close>

definition is_footnote_section :: "node \<Rightarrow> bool" where
  "is_footnote_section el =
     ((tag el = ''div'' \<or> tag el = ''section'') \<and>
      (contains ''footnote'' (attr el ''id'') \<or> contains ''footnote'' (attr el ''class'')))"

text \<open>\<^verbatim>\<open>s.match(/(\d+)/)\<close>: the first run of digits.\<close>

definition first_digits :: "string \<Rightarrow> string option" where
  "first_digits s =
     (let r = dropWhile (\<lambda>c. \<not> is_digit c) s
      in if r = [] then None else Some (takeWhile is_digit r))"

text \<open>\<^verbatim>\<open>text.match(/^(\d+)[\s\.\)]/)\<close>: a leading numeral followed by white space,
  a full stop or a closing parenthesis.\<close>

definition leading_num :: "string \<Rightarrow> string option" where
  "leading_num s =
     (let ds = takeWhile is_digit s; r = dropWhile is_digit s
      in case r of
           [] \<Rightarrow> None
         | c # r' \<Rightarrow>
             if ds \<noteq> [] \<and> (is_space c \<or> c = CHR ''.'' \<or> c = CHR '')'') then Some ds
             else None)"

text \<open>\<^verbatim>\<open>text.replace(/^[\[\(]?\d+[\]\)]?[\s\.\)]*/, '')\<close>: an optional opening
  bracket, the numeral, an optional closing bracket and the separators behind it are
  removed; a text that does not start so is left as it is.\<close>

definition strip_number :: "string \<Rightarrow> string" where
  "strip_number s =
     (let s1 = (case s of
                  [] \<Rightarrow> []
                | c # r \<Rightarrow> if c = CHR ''['' \<or> c = CHR ''('' then r else s);
          ds = takeWhile is_digit s1;
          r1 = dropWhile is_digit s1;
          r2 = (case r1 of
                  [] \<Rightarrow> []
                | c # r \<Rightarrow> if c = CHR '']'' \<or> c = CHR '')'' then r else r1)
      in if ds = [] then s
         else dropWhile (\<lambda>c. is_space c \<or> c = CHR ''.'' \<or> c = CHR '')'') r2)"

text \<open>The body of the inner \<^verbatim>\<open>each\<close>: one \<^verbatim>\<open>p\<close>, \<^verbatim>\<open>div\<close> or \<^verbatim>\<open>span\<close>
  below a footnote section.\<close>

definition footnote_entry :: "jsmap \<Rightarrow> node \<Rightarrow> jsmap" where
  "footnote_entry footnotes el =
     (let text = trim (text_of el);
          idMatch = first_digits (attr el ''id'');
          textMatch = leading_num text;
          num = (case idMatch of Some n \<Rightarrow> Some n | None \<Rightarrow> textMatch)
      in case num of
           None \<Rightarrow> footnotes
         | Some n \<Rightarrow>
             (let cleanText = trim (strip_number text)
              in if cleanText \<noteq> [] then map_set footnotes n cleanText else footnotes))"

definition scan_section :: "jsmap \<Rightarrow> node \<Rightarrow> jsmap" where
  "scan_section footnotes section =
     foldl footnote_entry footnotes
       (filter (\<lambda>el. tag el = ''p'' \<or> tag el = ''div'' \<or> tag el = ''span'')
          (descendants section))"

text \<open>The selector \<^verbatim>\<open>.footnote-ref, sup\<close> and the second loop: an element whose
  trimmed text is a number becomes the text \<^verbatim>\<open>[nF]\<close>.\<close>

definition is_ref_el :: "node \<Rightarrow> bool" where
  "is_ref_el el = (has_class ''footnote-ref'' (attr el ''class'') \<or> tag el = ''sup'')"

fun clean_refs :: "node \<Rightarrow> node" where
  "clean_refs (Text s) = Text s"
| "clean_refs (Element t as cs) =
     (if is_ref_el (Element t as cs) \<and> is_number (trim (text_of (Element t as cs)))
      then Text (''['' @ trim (text_of (Element t as cs)) @ ''F]'')
      else Element t as (map clean_refs cs))"

text \<open>The result is the pair \<^verbatim>\<open>{ cleanedHtml, footnotes }\<close>. A section is scanned
  before it is removed, and removing one section does not change what is below
  another, so all sections are scanned first and removed afterwards.\<close>

definition parseAndCleanFootnotes :: "node list \<Rightarrow> node list \<times> jsmap" where
  "parseAndCleanFootnotes doc =
     (let sections = filter is_footnote_section (all_elems doc);
          footnotes = foldl scan_section [] sections;
          removed = remove_all is_footnote_section doc
      in (map clean_refs removed, footnotes))"

subsection \<open>extractFootnotes (index.js, 49-126)\<close>

text \<open>The ten selectors of \<^verbatim>\<open>footnoteSelectors\<close>, joined by commas.\<close>

definition is_footnote_el :: "node \<Rightarrow> bool" where
  "is_footnote_el el =
     (let i = attr el ''id''; c = attr el ''class''
      in prefix ''footnote-'' i \<or> prefix ''sdfootnote'' i \<or> prefix ''_ftn'' i \<or>
         prefix ''fn'' i \<or> has_class ''footnote'' c \<or> has_class ''MsoFootnoteText'' c \<or>
         contains ''footnote'' c \<or>
         ((tag el = ''div'' \<or> tag el = ''p'' \<or> tag el = ''span'') \<and> contains ''footnote'' i))"

text \<open>\<^verbatim>\<open>text.match(/\[(\d+)\]|^(\d+)$/)\<close>, read as \<^verbatim>\<open>refMatch[1] || refMatch[2]\<close>:
  the first bracketed numeral, or the whole text when it is a number.\<close>

fun find_bracket_num :: "string \<Rightarrow> string option" where
  "find_bracket_num [] = None"
| "find_bracket_num (c # cs) =
     (case bracket_num (c # cs) of Some (n, rest) \<Rightarrow> Some n | None \<Rightarrow> find_bracket_num cs)"

definition ref_num :: "string \<Rightarrow> string option" where
  "ref_num s =
     (case find_bracket_num s of
        Some n \<Rightarrow> Some n
      | None \<Rightarrow> if is_number s then Some s else None)"

text \<open>\<^verbatim>\<open>s.replace(/^\d+\s*/, '')\<close>.\<close>

definition strip_plain_number :: "string \<Rightarrow> string" where
  "strip_plain_number s =
     (if takeWhile is_digit s = [] then s else dropWhile is_space (dropWhile is_digit s))"

text \<open>The body of the first \<^verbatim>\<open>each\<close>.\<close>

definition selector_entry :: "jsmap \<Rightarrow> node \<Rightarrow> jsmap" where
  "selector_entry m el =
     (let i = attr el ''id'';
          text = trim (text_of el);
          num1 = (if i \<noteq> [] then first_digits i else None);
          num2 = (case num1 of Some n \<Rightarrow> Some n | None \<Rightarrow> leading_num text);
          num = (case num2 of Some n \<Rightarrow> Some n | None \<Rightarrow> ref_num text)
      in case num of
           None \<Rightarrow> m
         | Some n \<Rightarrow>
             if text \<noteq> []
             then (let cleanText = trim (strip_plain_number (strip_number text))
                   in if cleanText \<noteq> [] then map_set m n cleanText else m)
             else m)"

text \<open>
  \<^verbatim>\<open>parentText.match(new RegExp(`${num}[\\s\\.:]*(.+)`))\<close> at the start of a text:
  the numeral, a run of white space, full stops and colons, and then at least one
  character that is no line terminator, up to the end of the line. The run is the
  longest one when a character follows it on the line; otherwise the pattern gives
  characters of the run back until the group can take one.
\<close>

definition is_sep :: "char \<Rightarrow> bool" where
  "is_sep c = (is_space c \<or> c = CHR ''.'' \<or> c = CHR '':'')"

definition note_at :: "string \<Rightarrow> string \<Rightarrow> string option" where
  "note_at num s =
     (if prefix num s
      then (let r = drop (length num) s;
                run = takeWhile is_sep r;
                r1 = dropWhile is_sep r
            in if r1 \<noteq> [] then Some (takeWhile (\<lambda>c. \<not> is_line_terminator c) r1)
               else (case dropWhile is_line_terminator (rev run) of
                       [] \<Rightarrow> None
                     | c # cs \<Rightarrow> Some [c]))
      else None)"

fun find_note :: "string \<Rightarrow> string \<Rightarrow> string option" where
  "find_note num [] = None"
| "find_note num (c # cs) =
     (case note_at num (c # cs) of Some g \<Rightarrow> Some g | None \<Rightarrow> find_note num cs)"

text \<open>The body of the second \<^verbatim>\<open>each\<close>: a \<^verbatim>\<open>sup\<close> or \<^verbatim>\<open>sub\<close> element and its
  parent.\<close>

definition sup_entry :: "jsmap \<Rightarrow> node \<times> node \<Rightarrow> jsmap" where
  "sup_entry m ep =
     (let text = trim (text_of (fst ep))
      in if is_number text
         then (case find_note text (text_of (snd ep)) of
                 Some g \<Rightarrow> map_set m text (trim g)
               | None \<Rightarrow> m)
         else m)"

definition selector_pass :: "jsmap \<Rightarrow> node list \<Rightarrow> jsmap" where
  "selector_pass m doc = foldl selector_entry m (filter is_footnote_el (all_elems doc))"

definition sup_pass :: "jsmap \<Rightarrow> node list \<Rightarrow> jsmap" where
  "sup_pass m doc =
     foldl sup_entry m
       (filter (\<lambda>ep. tag (fst ep) = ''sup'' \<or> tag (fst ep) = ''sub'')
          (with_parent (Element ''body'' [] doc)))"

definition extractFootnotes :: "node list \<Rightarrow> jsmap" where
  "extractFootnotes doc = sup_pass (selector_pass [] doc) doc"

subsection \<open>The merged mapping (index.js, 679-694)\<close>

text \<open>\<^verbatim>\<open>new Map(entries)\<close> adds the entries one after the other with \<^verbatim>\<open>set\<close>.\<close>

definition new_Map :: "(string \<times> string) list \<Rightarrow> jsmap" where
  "new_Map entries = foldl (\<lambda>m kv. map_set m (fst kv) (snd kv)) [] entries"

text \<open>\<^verbatim>\<open>footMap = new Map([...extractedFootnotes, ...additionalFootnotes])\<close>, where
  the additional footnotes are extracted from the cleaned document.\<close>

definition buildFootMap :: "node list \<Rightarrow> jsmap" where
  "buildFootMap rawHtml =
     (let cleanedHtml = fst (parseAndCleanFootnotes rawHtml);
          extractedFootnotes = snd (parseAndCleanFootnotes rawHtml);
          additionalFootnotes = extractFootnotes cleanedHtml
      in new_Map (extractedFootnotes @ additionalFootnotes))"

text \<open>A sample document: a heading, a paragraph with a reference, a footnote
  section with three entries, a paragraph of class \<^verbatim>\<open>footnote\<close> and a paragraph
  with a subscript.\<close>

definition sample_doc :: "node list" where
  "sample_doc =
     [Element ''h1'' [] [Text ''Chapter 1''],
      Element ''p'' [] [Text ''Hello'', Element ''sup'' [] [Text ''1''], Text '' world''],
      Element ''div'' [(''class'', ''footnotes'')]
        [Element ''p'' [] [Text ''1. alpha''],
         Element ''p'' [(''id'', ''fn-2'')] [Text ''beta''],
         Element ''p'' [] [Text '''']],
      Element ''p'' [(''class'', ''footnote'')] [Text ''[1] later''],
      Element ''p'' [] [Text ''CO'', Element ''sub'' [] [Text ''2''], Text '' '']]"

subsection \<open>Heading patterns\<close>

definition is_word :: "char \<Rightarrow> bool" where
  "is_word c =
     (c \<in> set ''abcdefghijklmnopqrstuvwxyzABCDEFGHIJKLMNOPQRSTUVWXYZ0123456789_'')"

definition is_letter :: "char \<Rightarrow> bool" where
  "is_letter c = (c \<in> set ''abcdefghijklmnopqrstuvwxyzABCDEFGHIJKLMNOPQRSTUVWXYZ'')"

text \<open>\<^verbatim>\<open>toLowerCase\<close> on one code unit: the letters A to Z and the upper-case
  letters U+00C0 to U+00DE (U+00D7, the multiplication sign, is none) go to the letter
  32 places higher, every other code unit below 256 stays.\<close>

definition upper_chars :: string where
  "upper_chars =
     ''ABCDEFGHIJKLMNOPQRSTUVWXYZ'' @
     [CHR 0xC0, CHR 0xC1, CHR 0xC2, CHR 0xC3, CHR 0xC4, CHR 0xC5, CHR 0xC6, CHR 0xC7,
      CHR 0xC8, CHR 0xC9, CHR 0xCA, CHR 0xCB, CHR 0xCC, CHR 0xCD, CHR 0xCE, CHR 0xCF,
      CHR 0xD0, CHR 0xD1, CHR 0xD2, CHR 0xD3, CHR 0xD4, CHR 0xD5, CHR 0xD6, CHR 0xD8,
      CHR 0xD9, CHR 0xDA, CHR 0xDB, CHR 0xDC, CHR 0xDD, CHR 0xDE]"

definition lower_chars :: string where
  "lower_chars =
     ''abcdefghijklmnopqrstuvwxyz'' @
     [CHR 0xE0, CHR 0xE1, CHR 0xE2, CHR 0xE3, CHR 0xE4, CHR 0xE5, CHR 0xE6, CHR 0xE7,
      CHR 0xE8, CHR 0xE9, CHR 0xEA, CHR 0xEB, CHR 0xEC, CHR 0xED, CHR 0xEE, CHR 0xEF,
      CHR 0xF0, CHR 0xF1, CHR 0xF2, CHR 0xF3, CHR 0xF4, CHR 0xF5, CHR 0xF6, CHR 0xF8,
      CHR 0xF9, CHR 0xFA, CHR 0xFB, CHR 0xFC, CHR 0xFD, CHR 0xFE]"

definition lower :: "char \<Rightarrow> char" where
  "lower c = (case map_of (zip upper_chars lower_chars) c of Some l \<Rightarrow> l | None \<Rightarrow> c)"

text \<open>A literal (lower-case) pattern at the start of a text, under the \<^verbatim>\<open>i\<close> flag.\<close>

definition ci_prefix :: "string \<Rightarrow> string \<Rightarrow> bool" where
  "ci_prefix pat s = prefix pat (map lower s)"

text \<open>\<^verbatim>\<open>/appendix|one pagers|persons of interest|charts, maps/i.test(text)\<close>.\<close>

definition appendix_rx :: "string \<Rightarrow> bool" where
  "appendix_rx s =
     (contains ''appendix'' (map lower s) \<or> contains ''one pagers'' (map lower s) \<or>
      contains ''persons of interest'' (map lower s) \<or> contains ''charts, maps'' (map lower s))"

text \<open>
  \<^verbatim>\<open>/chapter\s+(\w+(?:-\w+)?)/i\<close> at the start of a text: the keyword, the longest
  run of white space (it must end in front of a word character), the longest run of
  word characters and, when a hyphen and a word character follow, the hyphen and the
  next run of word characters. The result is the captured token and the text behind.
\<close>

definition chapter_at :: "string \<Rightarrow> (string \<times> string) option" where
  "chapter_at s =
     (if ci_prefix ''chapter'' s
      then (let r = drop 7 s;
                ws = takeWhile is_space r;
                r1 = dropWhile is_space r;
                w1 = takeWhile is_word r1;
                r2 = dropWhile is_word r1
            in if ws = [] \<or> w1 = [] then None
               else (case r2 of
                       [] \<Rightarrow> Some (w1, r2)
                     | c # r3 \<Rightarrow>
                         if c = CHR ''-'' \<and> takeWhile is_word r3 \<noteq> []
                         then Some (w1 @ ''-'' @ takeWhile is_word r3, dropWhile is_word r3)
                         else Some (w1, r2)))
      else None)"

text \<open>\<^verbatim>\<open>/chapter\s+\w+/i\<close> at the start of a text, the test that makes a heading a
  chapter heading.\<close>

definition chapter_test_at :: "string \<Rightarrow> (string \<times> string) option" where
  "chapter_test_at s =
     (if ci_prefix ''chapter'' s
      then (let r = drop 7 s;
                ws = takeWhile is_space r;
                r1 = dropWhile is_space r;
                w1 = takeWhile is_word r1
            in if ws = [] \<or> w1 = [] then None else Some (w1, dropWhile is_word r1))
      else None)"

text \<open>\<^verbatim>\<open>/book\s+\w+/i\<close> at the start of a text.\<close>

definition book_at :: "string \<Rightarrow> (string \<times> string) option" where
  "book_at s =
     (if ci_prefix ''book'' s
      then (let r = drop 4 s;
                ws = takeWhile is_space r;
                r1 = dropWhile is_space r;
                w1 = takeWhile is_word r1
            in if ws = [] \<or> w1 = [] then None else Some (w1, dropWhile is_word r1))
      else None)"

text \<open>\<^verbatim>\<open>text.match(rx)[1]\<close>: the capture of the leftmost match.\<close>

fun first_match :: "(string \<Rightarrow> (string \<times> string) option) \<Rightarrow> string \<Rightarrow> string option" where
  "first_match m [] = None"
| "first_match m (c # cs) =
     (case m (c # cs) of Some (g, rest) \<Rightarrow> Some g | None \<Rightarrow> first_match m cs)"

text \<open>\<^verbatim>\<open>/chapter\s+/i\<close> at the start of a text, and
  \<^verbatim>\<open>text.replace(/chapter\s+/i, '')\<close>, which removes the leftmost match only.\<close>

definition chapter_word_at :: "string \<Rightarrow> (string \<times> string) option" where
  "chapter_word_at s =
     (if ci_prefix ''chapter'' s \<and> takeWhile is_space (drop 7 s) \<noteq> []
      then Some ([], dropWhile is_space (drop 7 s)) else None)"

fun replace_first :: "(string \<Rightarrow> (string \<times> string) option) \<Rightarrow> string \<Rightarrow> string" where
  "replace_first m [] = []"
| "replace_first m (c # cs) =
     (case m (c # cs) of Some (out, rest) \<Rightarrow> out @ rest | None \<Rightarrow> c # replace_first m cs)"

text \<open>\<^verbatim>\<open>s.replace(/\s+/g, '-')\<close>.\<close>

function dash_spaces :: "string \<Rightarrow> string" where
  "dash_spaces [] = []"
| "dash_spaces (c # cs) =
     (if is_space c then CHR ''-'' # dash_spaces (dropWhile is_space cs)
      else c # dash_spaces cs)"
  by pat_completeness auto
termination
  by (relation "measure length") (auto simp: length_dropWhile_le less_Suc_eq_le)

subsection \<open>extractDocumentStructure (converter.js, 182-329)\<close>

text \<open>
  The elements of a list of siblings and the elements below them, in document order,
  each with its previous sibling element (\<^verbatim>\<open>$(el).prev()\<close>).
\<close>

fun sibs :: "node option \<Rightarrow> node list \<Rightarrow> (node \<times> node option) list" where
  "sibs prev [] = []"
| "sibs prev (Text s # ns) = sibs prev ns"
| "sibs prev (Element t as cs # ns) =
     (Element t as cs, prev) # sibs None cs @ sibs (Some (Element t as cs)) ns"

fun children :: "node \<Rightarrow> node list" where
  "children (Text s) = []"
| "children (Element t as cs) = cs"

record content_item =
  ctype :: string
  chtml :: string

record appendix =
  atitle :: string
  aid :: string
  acontent :: "content_item list"

record chapter_obj =
  title :: string
  cid :: string
  numericId :: string
  referenceId :: string
  content :: "content_item list"

text \<open>A book holds references to the chapter objects: their positions in
  \<^verbatim>\<open>structure.chapters\<close>.\<close>

record book =
  btitle :: string
  bchapters :: "nat list"

text \<open>The \<^verbatim>\<open>structure\<close> object together with the two variables of the loop,
  \<^verbatim>\<open>currentBook\<close> (a position in \<^verbatim>\<open>structure.books\<close>) and \<^verbatim>\<open>inFrontMatter\<close>.\<close>

record doc_structure =
  stitle :: string
  frontMatter :: "content_item list"
  books :: "book list"
  chapters :: "chapter_obj list"
  appendices :: "appendix list"
  currentBook :: "nat option"
  inFrontMatter :: bool

text \<open>\<^verbatim>\<open>xs[xs.length - 1]\<close> changed in place; every use is guarded by
  \<^verbatim>\<open>xs.length > 0\<close>.\<close>

definition on_last :: "('a \<Rightarrow> 'a) \<Rightarrow> 'a list \<Rightarrow> 'a list" where
  "on_last f xs = (if xs = [] then xs else butlast xs @ [f (last xs)])"

definition push_appendix :: "content_item \<Rightarrow> doc_structure \<Rightarrow> doc_structure" where
  "push_appendix item st =
     st\<lparr>appendices := on_last (\<lambda>a. a\<lparr>acontent := acontent a @ [item]\<rparr>) (appendices st)\<rparr>"

definition push_chapter :: "content_item \<Rightarrow> doc_structure \<Rightarrow> doc_structure" where
  "push_chapter item st =
     st\<lparr>chapters := on_last (\<lambda>c. c\<lparr>content := content c @ [item]\<rparr>) (chapters st)\<rparr>"

text \<open>The identifier of an appendix:
  \<^verbatim>\<open>text.toLowerCase().replace(/[\s,]/g, '-').replace(/[^\w-]/g, '')\<close>.\<close>

definition appendixId :: "string \<Rightarrow> string" where
  "appendixId s =
     filter (\<lambda>c. is_word c \<or> c = CHR ''-'')
       (map (\<lambda>c. if is_space c \<or> c = CHR '','' then CHR ''-'' else c) (map lower s))"

text \<open>The chapter number: the capture of \<^verbatim>\<open>/chapter\s+(\w+(?:-\w+)?)/i\<close> when that
  pattern matches, else the text without the keyword.\<close>

definition chapterNum :: "string \<Rightarrow> string" where
  "chapterNum s =
     (case first_match chapter_at s of
        Some tok \<Rightarrow> tok
      | None \<Rightarrow> trim (replace_first chapter_word_at s))"

text \<open>
  The body of the \<^verbatim>\<open>each\<close> over \<^verbatim>\<open>h1, h2, h3, p\<close>. The serializer behind
  \<^verbatim>\<open>$(el).html()\<close> is the parameter \<open>render\<close>.
\<close>

definition step :: "(node list \<Rightarrow> string) \<Rightarrow> doc_structure \<Rightarrow> node \<times> node option \<Rightarrow> doc_structure" where
  "step render st ep =
     (let el = fst ep;
          text = trim (text_of el);
          item = \<lparr>ctype = tag el, chtml = render (children el)\<rparr>
      in if (tag el = ''h1'' \<or> tag el = ''h2'') \<and> appendix_rx text
         then st\<lparr>inFrontMatter := False,
                 appendices := appendices st @
                   [\<lparr>atitle = text, aid = ''appendix-'' @ appendixId text, acontent = []\<rparr>]\<rparr>
         else if (tag el = ''h1'' \<or> tag el = ''h2'') \<and> has_match chapter_test_at text
         then (let num = chapterNum text;
                   new = \<lparr>title = text,
                          cid = ''chapter-'' @ dash_spaces (map lower num),
                          numericId = num,
                          referenceId = (case find_bracket_num (render (children el)) of
                                           Some n \<Rightarrow> n | None \<Rightarrow> []),
                          content = []\<rparr>;
                   st1 = st\<lparr>inFrontMatter := False, chapters := chapters st @ [new]\<rparr>;
                   st2 = (if books st1 = []
                          then st1\<lparr>currentBook := Some 0,
                                   books := [\<lparr>btitle = ''Book One'', bchapters = []\<rparr>]\<rparr>
                          else st1)
               in case currentBook st2 of
                    None \<Rightarrow> st2
                  | Some b \<Rightarrow>
                      st2\<lparr>books := (books st2)
                            [b := (books st2 ! b)
                               \<lparr>bchapters := bchapters (books st2 ! b) @ [length (chapters st)]\<rparr>]\<rparr>)
         else if tag el = ''h1'' \<and> has_match book_at text
         then st\<lparr>inFrontMatter := False,
                 currentBook := Some (length (books st)),
                 books := books st @ [\<lparr>btitle = text, bchapters = []\<rparr>]\<rparr>
         else if inFrontMatter st then st\<lparr>frontMatter := frontMatter st @ [item]\<rparr>
         else if appendices st \<noteq> [] \<and> chapters st = [] then push_appendix item st
         else if appendices st \<noteq> []
         then (let inAppendixSection =
                     (case snd ep of
                        None \<Rightarrow> False
                      | Some lastEl \<Rightarrow> appendix_rx (trim (text_of lastEl)))
               in if inAppendixSection then push_appendix item st
                  else if chapters st \<noteq> [] then push_chapter item st
                  else st)
         else if chapters st \<noteq> [] then push_chapter item st
         else st)"

definition is_block :: "node \<Rightarrow> bool" where
  "is_block el = (tag el = ''h1'' \<or> tag el = ''h2'' \<or> tag el = ''h3'' \<or> tag el = ''p'')"

text \<open>\<^verbatim>\<open>$('title').text() || 'Novel'\<close>.\<close>

definition doc_title :: "node list \<Rightarrow> string" where
  "doc_title doc =
     (let t = concat (map text_of (filter (\<lambda>el. tag el = ''title'') (all_elems doc)))
      in if t = [] then ''Novel'' else t)"

definition extractDocumentStructure :: "(node list \<Rightarrow> string) \<Rightarrow> node list \<Rightarrow> doc_structure" where
  "extractDocumentStructure render doc =
     foldl (step render)
       \<lparr>stitle = doc_title doc, frontMatter = [], books = [], chapters = [],
        appendices = [], currentBook = None, inFrontMatter = True\<rparr>
       (filter (\<lambda>ep. is_block (fst ep)) (sibs None doc))"

subsection \<open>parseChapters and generateId (index.js, 544-623)\<close>

text \<open>
  \<^verbatim>\<open>/chapter\s+(\d+|[a-z]+)/i\<close> at the start of a text: the keyword, white space
  and the longest run of digits or, when no digit follows, the longest run of letters.
\<close>

definition chapter_kw_at :: "string \<Rightarrow> (string \<times> string) option" where
  "chapter_kw_at s =
     (if ci_prefix ''chapter'' s
      then (let r = drop 7 s;
                ws = takeWhile is_space r;
                r1 = dropWhile is_space r
            in if ws = [] then None
               else if takeWhile is_digit r1 \<noteq> []
               then Some (takeWhile is_digit r1, dropWhile is_digit r1)
               else if takeWhile is_letter r1 \<noteq> []
               then Some (takeWhile is_letter r1, dropWhile is_letter r1)
               else None)
      else None)"

text \<open>\<^verbatim>\<open>titleText.match(rx)\<close> for the pattern of line 567: a leading run of digits,
  then optional white space, an optional colon, full stop, dash or hyphen, optional
  white space and any rest of the line. Everything behind the digits is optional, so
  the pattern matches every text that starts with a digit; the capture is the longest
  run of digits.\<close>

definition number_match :: "string \<Rightarrow> string option" where
  "number_match s = (if takeWhile is_digit s = [] then None else Some (takeWhile is_digit s))"

record section_obj =
  sec_title :: string
  isChapter :: bool
  sec_chapterNum :: "string option"
  heading :: node
  sec_content :: "node list"
  index :: nat

text \<open>The loop of \<^verbatim>\<open>$heading.next()\<close>: the sibling elements behind the heading up
  to the next \<^verbatim>\<open>h1\<close> or \<^verbatim>\<open>h2\<close>.\<close>

definition is_heading :: "node \<Rightarrow> bool" where
  "is_heading el = (tag el = ''h1'' \<or> tag el = ''h2'')"

definition is_element :: "node \<Rightarrow> bool" where
  "is_element el = (case el of Text s \<Rightarrow> False | Element t as cs \<Rightarrow> True)"

definition content_after :: "node list \<Rightarrow> node list" where
  "content_after following = takeWhile (\<lambda>el. \<not> is_heading el) (filter is_element following)"

text \<open>Every \<^verbatim>\<open>h1\<close> and \<^verbatim>\<open>h2\<close> of the document, in document order, with the
  siblings behind it.\<close>

fun headings :: "node list \<Rightarrow> (node \<times> node list) list" where
  "headings [] = []"
| "headings (Text s # ns) = headings ns"
| "headings (Element t as cs # ns) =
     (if is_heading (Element t as cs) then [(Element t as cs, ns)] else [])
     @ headings cs @ headings ns"

text \<open>The body of \<^verbatim>\<open>headings.forEach\<close>.\<close>

definition heading_section :: "node \<times> node list \<Rightarrow> nat \<Rightarrow> section_obj" where
  "heading_section hn i =
     (let titleText = trim (text_of (fst hn));
          chapterMatch = first_match chapter_kw_at titleText;
          numberMatch = number_match titleText
      in \<lparr>sec_title = titleText,
          isChapter = (chapterMatch \<noteq> None \<or> numberMatch \<noteq> None),
          sec_chapterNum = (case chapterMatch of Some n \<Rightarrow> Some n | None \<Rightarrow> numberMatch),
          heading = fst hn,
          sec_content = content_after (snd hn),
          index = i\<rparr>)"

definition parseChapters :: "node list \<Rightarrow> section_obj list" where
  "parseChapters doc =
     (let found = map (\<lambda>(hn, i). heading_section hn i)
                    (zip (headings doc) [0 ..< length (headings doc)])
      in if found = []
         then [\<lparr>sec_title = ''Full Document'', isChapter = False, sec_chapterNum = None,
                heading = Element ''h1'' [] [Text ''Full Document''],
                sec_content = doc, index = 0\<rparr>]
         else found)"

text \<open>A number as \<^verbatim>\<open>`section-${index}`\<close> prints it.\<close>

fun digits_of :: "nat \<Rightarrow> string" where
  "digits_of n =
     (if n < 10 then [''0123456789'' ! n]
      else digits_of (n div 10) @ [''0123456789'' ! (n mod 10)])"

definition generateId :: "section_obj \<Rightarrow> nat \<Rightarrow> string" where
  "generateId chapter i =
     (let lowerTitle = map lower (sec_title chapter)
      in case sec_chapterNum chapter of
           Some n \<Rightarrow> ''chapter-'' @ n
         | None \<Rightarrow>
             if contains ''preface'' lowerTitle then ''preface''
             else if contains ''prologue'' lowerTitle then ''prologue''
             else if contains ''epilogue'' lowerTitle then ''epilogue''
             else if contains ''acknowledgment'' lowerTitle then ''acknowledgments''
             else if contains ''dedication'' lowerTitle then ''dedication''
             else if contains ''contents'' lowerTitle then ''toc''
             else if i = 0 then ''front-matter''
             else ''section-'' @ digits_of i)"

section \<open>Properties of escapeHTML\<close>

lemma replace_char_Nil [simp]: "replace_char c r [] = []"
  by (simp add: replace_char_def)

lemma replace_char_Cons:
  "replace_char c r (x # xs) = (if x = c then r else [x]) @ replace_char c r xs"
  by (simp add: replace_char_def)

lemma replace_char_append:
  "replace_char c r (xs @ ys) = replace_char c r xs @ replace_char c r ys"
  by (simp add: replace_char_def)

lemma escapeHTML_Nil [simp]: "escapeHTML [] = []"
  by (simp add: escapeHTML_def)

lemma escapeHTML_Cons: "escapeHTML (c # cs) = esc_char c @ escapeHTML cs"
  by (simp add: escapeHTML_def esc_char_def replace_char_Cons replace_char_append)

lemma escapeHTML_concat: "escapeHTML s = concat (map esc_char s)"
  by (induction s) (simp_all add: escapeHTML_Cons)

lemma esc_char_no_special:
  "set (esc_char c) \<inter> {CHR ''<'', CHR ''>'', CHR ''\"'', CHR 0x27} = {}"
  by (simp add: esc_char_def)

lemma escapeHTML_no_special:
  "set (escapeHTML s) \<inter> {CHR ''<'', CHR ''>'', CHR ''\"'', CHR 0x27} = {}"
proof (induction s)
  case Nil
  show ?case by simp
next
  case (Cons c cs)
  have "set (escapeHTML (c # cs)) = set (esc_char c) \<union> set (escapeHTML cs)"
    by (simp add: escapeHTML_Cons)
  then show ?case
    using Cons esc_char_no_special [of c] by (simp only: Int_Un_distrib2 Un_empty)
qed

lemma amp_ok_esc_char: "amp_ok r \<Longrightarrow> amp_ok (esc_char c @ r)"
  by (simp add: esc_char_def entities_def)

lemma amp_ok_escapeHTML: "amp_ok (escapeHTML s)"
  by (induction s) (simp_all add: escapeHTML_Cons amp_ok_esc_char)

lemma amp_ok_drop:
  "amp_ok s \<Longrightarrow> i < length s \<Longrightarrow> s ! i = CHR ''&'' \<Longrightarrow>
   \<exists>e \<in> set entities. prefix e (drop i s)"
proof (induction s arbitrary: i)
  case Nil
  then show ?case by simp
next
  case (Cons c cs)
  show ?case
  proof (cases i)
    case 0
    with Cons.prems show ?thesis by simp
  next
    case (Suc j)
    with Cons.prems have "amp_ok cs" "j < length cs" "cs ! j = CHR ''&''"
      by simp_all
    from Cons.IH [OF this] Suc show ?thesis by simp
  qed
qed

section \<open>The scanning replace\<close>

lemma replace_all_Cons:
  assumes "consuming m"
  shows "replace_all m (c # cs) =
     (case m (c # cs) of Some (out, rest) \<Rightarrow> out @ replace_all m rest
      | None \<Rightarrow> c # replace_all m cs)"
proof (cases "m (c # cs)")
  case None
  then show ?thesis by simp
next
  case (Some a)
  obtain out rest where a: "a = (out, rest)" by (cases a)
  with Some assms have "length rest < length (c # cs)"
    unfolding consuming_def by blast
  with Some a show ?thesis by simp
qed

lemma replace_all_no_match: "\<not> has_match m s \<Longrightarrow> replace_all m s = s"
  by (induction s) (auto split: option.splits)

lemma shrinking_consuming: "shrinking m \<Longrightarrow> consuming m"
  unfolding shrinking_def consuming_def by fastforce

lemma replace_all_barrier:
  assumes cm: "consuming m" and b: "barrier m c"
  shows "replace_all m (p @ c # r) = replace_all m p @ replace_all m (c # r)"
proof (induction p rule: length_induct)
  case (1 p)
  show ?case
  proof (cases p)
    case Nil
    then show ?thesis by simp
  next
    case (Cons x xs)
    have eq: "m (p @ c # r) = map_option (\<lambda>(out, rest). (out, rest @ c # r)) (m p)"
      using b Cons unfolding barrier_def by blast
    show ?thesis
    proof (cases "m p")
      case None
      have "length xs < length p" using Cons by simp
      with 1 have "replace_all m (xs @ c # r) = replace_all m xs @ replace_all m (c # r)"
        by blast
      with None eq Cons show ?thesis by simp
    next
      case (Some a)
      obtain out rest where a: "a = (out, rest)" by (cases a)
      with Some cm have l: "length rest < length p"
        unfolding consuming_def by blast
      with 1 have ih: "replace_all m (rest @ c # r) = replace_all m rest @ replace_all m (c # r)"
        by blast
      have "replace_all m (p @ c # r) = out @ replace_all m (rest @ c # r)"
        using eq Some a Cons replace_all_Cons [OF cm, of x "xs @ c # r"] by simp
      moreover have "replace_all m p = out @ replace_all m rest"
        using Some a Cons replace_all_Cons [OF cm, of x xs] by simp
      ultimately show ?thesis using ih by simp
    qed
  qed
qed

lemma replace_all_length:
  assumes "shrinking m"
  shows "length (replace_all m s) \<le> length s"
proof (induction s rule: length_induct)
  case (1 s)
  show ?case
  proof (cases s)
    case Nil
    then show ?thesis by simp
  next
    case (Cons x xs)
    show ?thesis
    proof (cases "m s")
      case None
      have "length (replace_all m xs) \<le> length xs" using 1 Cons by simp
      with None Cons show ?thesis by simp
    next
      case (Some a)
      obtain out rest where a: "a = (out, rest)" by (cases a)
      with Some assms have l: "length out + length rest < length s"
        unfolding shrinking_def by blast
      then have "length (replace_all m rest) \<le> length rest" using 1 by simp
      moreover have "replace_all m s = out @ replace_all m rest"
        using Some a Cons replace_all_Cons [OF shrinking_consuming [OF assms], of x xs] by simp
      ultimately show ?thesis using l by simp
    qed
  qed
qed

lemma replace_all_shorter:
  assumes "shrinking m"
  shows "has_match m s \<Longrightarrow> length (replace_all m s) < length s"
proof (induction s)
  case Nil
  then show ?case by simp
next
  case (Cons x xs)
  show ?case
  proof (cases "m (x # xs)")
    case None
    with Cons show ?thesis by simp
  next
    case (Some a)
    obtain out rest where a: "a = (out, rest)" by (cases a)
    with Some assms have l: "length out + length rest < length (x # xs)"
      unfolding shrinking_def by blast
    have "length (replace_all m rest) \<le> length rest"
      by (rule replace_all_length [OF assms])
    moreover have "replace_all m (x # xs) = out @ replace_all m rest"
      using Some a replace_all_Cons [OF shrinking_consuming [OF assms], of x xs] by simp
    ultimately show ?thesis using l by simp
  qed
qed

lemma replace_all_fixed_iff:
  assumes "shrinking m"
  shows "replace_all m s = s \<longleftrightarrow> \<not> has_match m s"
proof
  assume "replace_all m s = s"
  then show "\<not> has_match m s"
    using replace_all_shorter [OF assms, of s] by auto
next
  assume "\<not> has_match m s"
  then show "replace_all m s = s" by (rule replace_all_no_match)
qed

section \<open>The marker patterns\<close>

lemma F_not_digit [simp]: "\<not> is_digit CHR ''F''"
  by (simp add: is_digit_def)

lemma bracket_not_digit [simp]: "\<not> is_digit CHR ''[''" "\<not> is_digit CHR '']''"
  by (simp_all add: is_digit_def)

lemma takeWhile_barrier: "\<not> P c \<Longrightarrow> takeWhile P (u @ c # r) = takeWhile P u"
  by (induction u) simp_all

lemma dropWhile_barrier: "\<not> P c \<Longrightarrow> dropWhile P (u @ c # r) = dropWhile P u @ c # r"
  by (induction u) simp_all

lemma prefix_barrier: "c \<notin> set pat \<Longrightarrow> prefix pat (x @ c # y) \<longleftrightarrow> prefix pat x"
proof (induction pat arbitrary: x)
  case Nil
  then show ?case by simp
next
  case (Cons a pat)
  then show ?case by (cases x) auto
qed

lemma takeWhile_digits_stop:
  "list_all is_digit n \<Longrightarrow> \<not> is_digit c \<Longrightarrow> takeWhile is_digit (n @ c # r) = n"
  by (induction n) simp_all

lemma dropWhile_digits_stop:
  "list_all is_digit n \<Longrightarrow> \<not> is_digit c \<Longrightarrow> dropWhile is_digit (n @ c # r) = c # r"
  by (induction n) simp_all

lemma list_all_takeWhile: "list_all P (takeWhile P s)"
  by (induction s) simp_all

lemma dup_at_iff:
  "dup_at s = Some (n, rest) \<longleftrightarrow>
     n \<noteq> [] \<and> list_all is_digit n \<and> s = n @ ''F'' @ n @ ''F'' @ rest"
proof
  assume a: "dup_at s = Some (n, rest)"
  let ?ds = "takeWhile is_digit s" and ?r = "dropWhile is_digit s"
  from a have n: "?ds = n" and ne: "n \<noteq> []" and p: "prefix (''F'' @ n @ ''F'') ?r"
    and r: "rest = drop (length n + 2) ?r"
    by (auto simp: dup_at_def Let_def split: if_splits)
  from p obtain z where z: "?r = (''F'' @ n @ ''F'') @ z"
    by (auto simp: prefix_def)
  with r have "rest = z" by simp
  moreover have "s = ?ds @ ?r" by simp
  ultimately have "s = n @ ''F'' @ n @ ''F'' @ rest" using n z by simp
  moreover have "list_all is_digit n" using n list_all_takeWhile [of is_digit s] by simp
  ultimately show "n \<noteq> [] \<and> list_all is_digit n \<and> s = n @ ''F'' @ n @ ''F'' @ rest"
    using ne by simp
next
  assume a: "n \<noteq> [] \<and> list_all is_digit n \<and> s = n @ ''F'' @ n @ ''F'' @ rest"
  then have "takeWhile is_digit s = n" "dropWhile is_digit s = ''F'' @ n @ ''F'' @ rest"
    using takeWhile_digits_stop [of n "CHR ''F''"] dropWhile_digits_stop [of n "CHR ''F''"]
    by simp_all
  with a show "dup_at s = Some (n, rest)"
    by (simp add: dup_at_def)
qed

lemma dup_repl_shrinking: "shrinking dup_repl"
  unfolding shrinking_def dup_repl_def
  by (auto simp: dup_at_iff)

lemma bracket_num_length: "bracket_num s = Some (k, rest) \<Longrightarrow> length rest < length s"
proof -
  assume a: "bracket_num s = Some (k, rest)"
  then obtain c r where s: "s = c # r" by (cases s) (auto simp: bracket_num_def)
  with a have "rest = drop 1 (dropWhile is_digit r)"
    by (auto simp: bracket_num_def Let_def split: if_splits)
  then have "length rest \<le> length (dropWhile is_digit r)" by simp
  also have "\<dots> \<le> length r" by (rule length_dropWhile_le)
  finally show ?thesis using s by simp
qed

lemma artifact_repl_shrinking: "shrinking artifact_repl"
  unfolding shrinking_def
proof (intro allI impI)
  fix s out rest
  assume a: "artifact_repl s = Some (out, rest)"
  then obtain n r where d: "dup_at s = Some (n, r)" and o: "out = []"
    and r: "rest = (case bracket_num r of Some (k, rest') \<Rightarrow> rest' | None \<Rightarrow> r)"
    by (auto simp: artifact_repl_def)
  have "length rest \<le> length r"
  proof (cases "bracket_num r")
    case None
    with r show ?thesis by simp
  next
    case (Some a)
    obtain k rest' where "a = (k, rest')" by (cases a)
    with Some r bracket_num_length [of r k rest'] show ?thesis by simp
  qed
  moreover from d have "length r < length s" by (simp add: dup_at_iff)
  ultimately show "length out + length rest < length s" using o by simp
qed

lemma dup_repl_barrier:
  assumes "\<not> is_digit c" "c \<noteq> CHR ''F''"
  shows "barrier dup_repl c"
  unfolding barrier_def
proof (intro allI impI)
  fix u r :: string
  assume "u \<noteq> []"
  let ?ds = "takeWhile is_digit u" and ?r = "dropWhile is_digit u"
  have 1: "takeWhile is_digit (u @ c # r) = ?ds"
    and 2: "dropWhile is_digit (u @ c # r) = ?r @ c # r"
    using assms by (simp_all add: takeWhile_barrier dropWhile_barrier)
  have "c \<notin> set (''F'' @ ?ds @ ''F'')"
  proof
    assume "c \<in> set (''F'' @ ?ds @ ''F'')"
    then have "c \<in> set ?ds" using assms by simp
    then have "is_digit c" by (rule set_takeWhileD [THEN conjunct2])
    with assms show False by simp
  qed
  then have 3: "prefix (''F'' @ ?ds @ ''F'') (?r @ c # r) \<longleftrightarrow> prefix (''F'' @ ?ds @ ''F'') ?r"
    by (rule prefix_barrier)
  show "dup_repl (u @ c # r) = map_option (\<lambda>(out, rest). (out, rest @ c # r)) (dup_repl u)"
  proof (cases "?ds \<noteq> [] \<and> prefix (''F'' @ ?ds @ ''F'') ?r")
    case True
    then have "length ?ds + 2 \<le> length ?r"
      using prefix_length_le by fastforce
    with True 1 2 3 show ?thesis
      by (simp add: dup_repl_def dup_at_def Let_def)
  next
    case False
    with 1 2 3 show ?thesis
      by (auto simp add: dup_repl_def dup_at_def Let_def)
  qed
qed

section \<open>Substitution of one marker\<close>

lemma ref_at_length: "ref_at s = Some (n, rest) \<Longrightarrow> length rest < length s"
proof -
  assume a: "ref_at s = Some (n, rest)"
  then obtain c r where s: "s = c # r" by (cases s) (auto simp: ref_at_def)
  show ?thesis
  proof (cases "c = CHR ''[''")
    case True
    with a s have "rest = drop 2 (dropWhile is_digit r) \<or> rest = drop 1 (dropWhile is_digit r)"
      by (auto simp: ref_at_def Let_def split: if_splits)
    then have "length rest \<le> length (dropWhile is_digit r)" by auto
    also have "\<dots> \<le> length r" by (rule length_dropWhile_le)
    finally show ?thesis using s by simp
  next
    case False
    with a s have r: "rest = drop 1 (dropWhile is_digit s)" and p: "prefix ''F'' (dropWhile is_digit s)"
      by (auto simp: ref_at_def Let_def split: if_splits)
    from p obtain z where "dropWhile is_digit s = ''F'' @ z"
      by (auto simp: prefix_def)
    with r have "length rest < length (dropWhile is_digit s)" by simp
    also have "\<dots> \<le> length s" by (rule length_dropWhile_le)
    finally show ?thesis .
  qed
qed

lemma conlang_repl_consuming: "consuming (conlang_repl footMap)"
  unfolding consuming_def conlang_repl_def
  by (auto dest: ref_at_length)

lemma ref_at_barrier:
  assumes "\<not> is_digit c" "c \<noteq> CHR ''F''" "c \<noteq> CHR '']''" "u \<noteq> []"
  shows "ref_at (u @ c # r) = map_option (\<lambda>(n, rest). (n, rest @ c # r)) (ref_at u)"
proof -
  from assms obtain x xs where u: "u = x # xs" by (cases u) auto
  have p1: "\<And>z. prefix ''F]'' (z @ c # r) \<longleftrightarrow> prefix ''F]'' z"
    using assms by (intro prefix_barrier) simp
  have p2: "\<And>z. prefix '']'' (z @ c # r) \<longleftrightarrow> prefix '']'' z"
    using assms by (intro prefix_barrier) simp
  have p3: "\<And>z. prefix ''F'' (z @ c # r) \<longleftrightarrow> prefix ''F'' z"
    using assms by (intro prefix_barrier) simp
  have l2: "\<And>z. prefix ''F]'' z \<Longrightarrow> drop 2 (z @ c # r) = drop 2 z @ c # r"
    by (auto simp: prefix_def)
  have l1: "\<And>z. prefix '']'' z \<Longrightarrow> drop 1 (z @ c # r) = drop 1 z @ c # r"
    by (auto simp: prefix_def)
  have l3: "\<And>z. prefix ''F'' z \<Longrightarrow> drop 1 (z @ c # r) = drop 1 z @ c # r"
    by (auto simp: prefix_def)
  show ?thesis
  proof (cases "x = CHR ''[''")
    case True
    have "takeWhile is_digit (xs @ c # r) = takeWhile is_digit xs"
      "dropWhile is_digit (xs @ c # r) = dropWhile is_digit xs @ c # r"
      using assms by (simp_all add: takeWhile_barrier dropWhile_barrier)
    with True u p1 p2 l1 l2 show ?thesis
      by (simp add: ref_at_def Let_def)
  next
    case False
    have "takeWhile is_digit (u @ c # r) = takeWhile is_digit u"
      "dropWhile is_digit (u @ c # r) = dropWhile is_digit u @ c # r"
      using assms by (simp_all add: takeWhile_barrier dropWhile_barrier)
    with False u p3 [of "dropWhile is_digit u"] l3 [of "dropWhile is_digit u"] show ?thesis
      by (simp add: ref_at_def Let_def del: dropWhile.simps takeWhile.simps)
  qed
qed

lemma conlang_repl_barrier:
  assumes "\<not> is_digit c" "c \<noteq> CHR ''F''" "c \<noteq> CHR '']''"
  shows "barrier (conlang_repl footMap) c"
  unfolding barrier_def conlang_repl_def
  using ref_at_barrier [OF assms]
  by (auto simp: option.map_comp comp_def split_def)

lemma ref_at_bracket_F:
  assumes "n \<noteq> []" "list_all is_digit n"
  shows "ref_at (''['' @ n @ ''F]'' @ rest) = Some (n, rest)"
  using assms takeWhile_digits_stop [of n "CHR ''F''" "'']'' @ rest"]
    dropWhile_digits_stop [of n "CHR ''F''" "'']'' @ rest"]
  by (simp add: ref_at_def)

lemma ref_at_bare:
  assumes "n \<noteq> []" "list_all is_digit n"
  shows "ref_at (n @ ''F'' @ rest) = Some (n, rest)"
proof -
  from assms obtain d ds where n: "n = d # ds" by (cases n) auto
  with assms have "d \<noteq> CHR ''[''" by auto
  with n assms takeWhile_digits_stop [of n "CHR ''F''" rest]
    dropWhile_digits_stop [of n "CHR ''F''" rest]
  show ?thesis by (simp add: ref_at_def del: takeWhile.simps dropWhile.simps)
qed

lemma ref_at_not_start:
  "\<not> is_digit c \<Longrightarrow> c \<noteq> CHR ''['' \<Longrightarrow> ref_at (c # r) = None"
  by (simp add: ref_at_def)

lemma dup_at_not_digit: "\<not> is_digit c \<Longrightarrow> dup_at (c # r) = None"
  by (simp add: dup_at_def)

lemmas dup_repl_consuming = shrinking_consuming [OF dup_repl_shrinking]

lemma normalize_barrier:
  assumes "\<not> is_digit c" "c \<noteq> CHR ''F''"
  shows "replace_all dup_repl (p @ c # r) = replace_all dup_repl p @ c # replace_all dup_repl r"
proof -
  have "replace_all dup_repl (c # r) = c # replace_all dup_repl r"
    using assms by (simp add: dup_repl_def dup_at_not_digit)
  with replace_all_barrier [OF dup_repl_consuming dup_repl_barrier [OF assms], of p r]
  show ?thesis by simp
qed

lemma normalize_digits_F:
  "list_all is_digit n \<Longrightarrow> replace_all dup_repl (n @ ''F'') = n @ ''F''"
proof (rule replace_all_no_match, induction n)
  case Nil
  then show ?case by (simp add: dup_repl_def dup_at_def)
next
  case (Cons d n)
  have "dup_at ((d # n) @ ''F'') = None"
  proof (rule ccontr)
    assume "dup_at ((d # n) @ ''F'') \<noteq> None"
    then obtain k rest where "dup_at ((d # n) @ ''F'') = Some (k, rest)" by auto
    then have k: "list_all is_digit k" and e: "(d # n) @ ''F'' = k @ ''F'' @ k @ ''F'' @ rest"
      by (simp_all add: dup_at_iff)
    from e have "takeWhile is_digit ((d # n) @ ''F'') = takeWhile is_digit (k @ ''F'' @ k @ ''F'' @ rest)"
      by (rule arg_cong)
    then have "d # n = k"
      using Cons.prems k takeWhile_digits_stop [of "d # n" "CHR ''F''" "[]"]
        takeWhile_digits_stop [of k "CHR ''F''" "k @ ''F'' @ rest"]
      by (simp del: takeWhile.simps)
    moreover from e have "length ((d # n) @ ''F'') = length (k @ ''F'' @ k @ ''F'' @ rest)"
      by (rule arg_cong)
    ultimately show False by auto
  qed
  with Cons show ?case by (simp add: dup_repl_def)
qed

lemma process_marker:
  assumes n: "n \<noteq> []" "list_all is_digit n"
  shows "processConlangInText (pre @ ''['' @ n @ ''F]'' @ post) footMap =
         processConlangInText pre footMap @ conlang_span footMap n @
         processConlangInText post footMap"
proof -
  let ?N = "replace_all dup_repl" and ?S = "replace_all (conlang_repl footMap)"
  have "?N (pre @ ''['' @ n @ ''F]'' @ post) = ?N pre @ CHR ''['' # ?N ((n @ ''F'') @ CHR '']'' # post)"
    using normalize_barrier [of "CHR ''[''" pre "n @ ''F]'' @ post"] by simp
  also have "?N ((n @ ''F'') @ CHR '']'' # post) = ?N (n @ ''F'') @ CHR '']'' # ?N post"
    by (rule normalize_barrier) simp_all
  finally have 1: "?N (pre @ ''['' @ n @ ''F]'' @ post) = ?N pre @ CHR ''['' # (n @ ''F]'' @ ?N post)"
    using n by (simp add: normalize_digits_F)
  have "?S (?N pre @ CHR ''['' # (n @ ''F]'' @ ?N post)) =
        ?S (?N pre) @ ?S (CHR ''['' # (n @ ''F]'' @ ?N post))"
    by (rule replace_all_barrier [OF conlang_repl_consuming conlang_repl_barrier]) simp_all
  also have "?S (CHR ''['' # (n @ ''F]'' @ ?N post)) = conlang_span footMap n @ ?S (?N post)"
    using ref_at_bracket_F [OF n, of "?N post"]
      replace_all_Cons [OF conlang_repl_consuming, of footMap "CHR ''[''" "n @ ''F]'' @ ?N post"]
    by (simp add: conlang_repl_def)
  finally show ?thesis using 1 by (simp add: processConlangInText_def)
qed

section \<open>Duplicated markers and marker-free text\<close>

lemma has_match_dup_repl: "has_match dup_repl s = has_match dup_at s"
  by (induction s) (simp_all add: dup_repl_def)

lemma has_match_artifact_repl: "has_match artifact_repl s = has_match dup_at s"
  by (induction s) (simp_all add: artifact_repl_def)

lemma no_marker_start_dup:
  "\<forall>c \<in> set s. \<not> is_digit c \<Longrightarrow> \<not> has_match dup_at s"
  by (induction s) (simp_all add: dup_at_not_digit)

lemma no_marker_start_ref:
  "\<forall>c \<in> set s. \<not> is_digit c \<and> c \<noteq> CHR ''['' \<Longrightarrow> \<not> has_match (conlang_repl footMap) s"
  by (induction s) (simp_all add: conlang_repl_def ref_at_not_start)

lemma process_plain:
  assumes "\<forall>c \<in> set s. \<not> is_digit c \<and> c \<noteq> CHR ''[''"
  shows "processConlangInText s footMap = s"
proof -
  from assms have "\<forall>c \<in> set s. \<not> is_digit c" by blast
  then have "replace_all dup_repl s = s"
    by (intro replace_all_no_match) (simp add: has_match_dup_repl no_marker_start_dup)
  moreover have "replace_all (conlang_repl footMap) s = s"
    using assms by (intro replace_all_no_match no_marker_start_ref)
  ultimately show ?thesis by (simp add: processConlangInText_def)
qed

lemma normalize_dup_head:
  assumes "n \<noteq> []" "list_all is_digit n"
  shows "replace_all dup_repl (n @ ''F'' @ n @ ''F'' @ post) = n @ ''F'' @ replace_all dup_repl post"
proof -
  from assms obtain d ds where n: "n = d # ds" by (cases n) auto
  have "dup_at (n @ ''F'' @ n @ ''F'' @ post) = Some (n, post)"
    using assms by (simp add: dup_at_iff)
  then have "dup_repl (d # ds @ ''F'' @ n @ ''F'' @ post) = Some (n @ ''F'', post)"
    using n by (simp add: dup_repl_def)
  with replace_all_Cons [OF dup_repl_consuming, of d "ds @ ''F'' @ n @ ''F'' @ post"] n
  show ?thesis by simp
qed

lemma normalize_dup:
  assumes "n \<noteq> []" "list_all is_digit n"
    and "pre = [] \<or> (\<not> is_digit (last pre) \<and> last pre \<noteq> CHR ''F'')"
  shows "normalizeRefs (pre @ n @ ''F'' @ n @ ''F'' @ post) =
         normalizeRefs pre @ n @ ''F'' @ normalizeRefs post"
proof (cases "pre = []")
  case True
  with normalize_dup_head [OF assms(1,2)] show ?thesis
    by (simp add: normalizeRefs_def)
next
  case False
  then obtain p c where pre: "pre = p @ [c]" by (cases pre rule: rev_cases) auto
  with assms False have c: "\<not> is_digit c" "c \<noteq> CHR ''F''" by simp_all
  have "replace_all dup_repl (p @ c # n @ ''F'' @ n @ ''F'' @ post) =
        replace_all dup_repl p @ c # replace_all dup_repl (n @ ''F'' @ n @ ''F'' @ post)"
    by (rule normalize_barrier [OF c])
  moreover have "replace_all dup_repl (p @ [c]) = replace_all dup_repl p @ [c]"
    using normalize_barrier [OF c, of p "[]"] by simp
  ultimately show ?thesis
    using pre normalize_dup_head [OF assms(1,2)] by (simp add: normalizeRefs_def)
qed

lemma subst_bare_head:
  assumes "n \<noteq> []" "list_all is_digit n"
  shows "replace_all (conlang_repl footMap) (n @ ''F'' @ rest) =
         conlang_span footMap n @ replace_all (conlang_repl footMap) rest"
proof -
  from assms obtain d ds where n: "n = d # ds" by (cases n) auto
  have "conlang_repl footMap (d # ds @ ''F'' @ rest) = Some (conlang_span footMap n, rest)"
    using ref_at_bare [OF assms, of rest] n by (simp add: conlang_repl_def)
  with replace_all_Cons [OF conlang_repl_consuming, of footMap d "ds @ ''F'' @ rest"] n
  show ?thesis by simp
qed

lemma process_dup:
  assumes "n \<noteq> []" "list_all is_digit n"
    and "pre = [] \<or> (\<not> is_digit (last pre) \<and> last pre \<notin> set ''F[]'')"
  shows "processConlangInText (pre @ n @ ''F'' @ n @ ''F'' @ post) footMap =
         processConlangInText pre footMap @ conlang_span footMap n @
         processConlangInText post footMap"
proof (cases "pre = []")
  case True
  with normalize_dup_head [OF assms(1,2), of post] subst_bare_head [OF assms(1,2)]
  show ?thesis by (simp add: processConlangInText_def)
next
  case False
  let ?N = "replace_all dup_repl" and ?S = "replace_all (conlang_repl footMap)"
  from False obtain p c where pre: "pre = p @ [c]" by (cases pre rule: rev_cases) auto
  with assms False have c: "\<not> is_digit c" "c \<noteq> CHR ''F''" and c2: "c \<noteq> CHR '']''"
    and c3: "c \<noteq> CHR ''[''" by simp_all
  have 1: "?N (p @ c # n @ ''F'' @ n @ ''F'' @ post) = ?N p @ c # n @ ''F'' @ ?N post"
    using normalize_barrier [OF c, of p] normalize_dup_head [OF assms(1,2)] by simp
  have 2: "?N (p @ [c]) = ?N p @ [c]"
    using normalize_barrier [OF c, of p "[]"] by simp
  have b: "barrier (conlang_repl footMap) c"
    by (rule conlang_repl_barrier [OF c c2])
  have s: "\<And>r. ?S (c # r) = c # ?S r"
    using c c3 by (simp add: conlang_repl_def ref_at_not_start)
  have 3: "?S (?N p @ c # n @ ''F'' @ ?N post) = ?S (?N p) @ c # conlang_span footMap n @ ?S (?N post)"
    using replace_all_barrier [OF conlang_repl_consuming b, of "?N p"] s
      subst_bare_head [OF assms(1,2)] by simp
  have 4: "?S (?N p @ [c]) = ?S (?N p) @ [c]"
    using replace_all_barrier [OF conlang_repl_consuming b, of "?N p" "[]"] s by simp
  show ?thesis using pre 1 2 3 4 by (simp add: processConlangInText_def)
qed

section \<open>The other marker forms\<close>

lemma dup_at_digits_only: "list_all is_digit n \<Longrightarrow> dup_at n = None"
proof -
  assume "list_all is_digit n"
  then have d: "dropWhile is_digit n = []" by (simp add: list_all_iff)
  show ?thesis unfolding dup_at_def Let_def d by simp
qed

lemma normalize_digits: "list_all is_digit n \<Longrightarrow> replace_all dup_repl n = n"
proof (rule replace_all_no_match, induction n)
  case Nil
  show ?case by simp
next
  case (Cons d n)
  then show ?case
    using dup_at_digits_only [of "d # n"] by (simp add: dup_repl_def)
qed

lemma ref_at_bracket:
  assumes "n \<noteq> []" "list_all is_digit n"
  shows "ref_at (''['' @ n @ '']'' @ rest) = Some (n, rest)"
  using assms takeWhile_digits_stop [of n "CHR '']''" rest]
    dropWhile_digits_stop [of n "CHR '']''" rest]
  by (simp add: ref_at_def)

lemma process_marker_plain:
  assumes n: "n \<noteq> []" "list_all is_digit n"
  shows "processConlangInText (pre @ ''['' @ n @ '']'' @ post) footMap =
         processConlangInText pre footMap @ conlang_span footMap n @
         processConlangInText post footMap"
proof -
  let ?N = "replace_all dup_repl" and ?S = "replace_all (conlang_repl footMap)"
  have "?N (pre @ ''['' @ n @ '']'' @ post) = ?N pre @ CHR ''['' # ?N (n @ CHR '']'' # post)"
    using normalize_barrier [of "CHR ''[''" pre "n @ '']'' @ post"] by simp
  also have "?N (n @ CHR '']'' # post) = ?N n @ CHR '']'' # ?N post"
    by (rule normalize_barrier) simp_all
  finally have 1: "?N (pre @ ''['' @ n @ '']'' @ post) = ?N pre @ CHR ''['' # (n @ '']'' @ ?N post)"
    using n by (simp add: normalize_digits)
  have "?S (?N pre @ CHR ''['' # (n @ '']'' @ ?N post)) =
        ?S (?N pre) @ ?S (CHR ''['' # (n @ '']'' @ ?N post))"
    by (rule replace_all_barrier [OF conlang_repl_consuming conlang_repl_barrier]) simp_all
  also have "?S (CHR ''['' # (n @ '']'' @ ?N post)) = conlang_span footMap n @ ?S (?N post)"
    using ref_at_bracket [OF n, of "?N post"]
      replace_all_Cons [OF conlang_repl_consuming, of footMap "CHR ''[''" "n @ '']'' @ ?N post"]
    by (simp add: conlang_repl_def)
  finally show ?thesis using 1 by (simp add: processConlangInText_def)
qed

lemma normalize_bare_head:
  assumes "list_all is_digit n" and "post = [] \<or> \<not> is_digit (hd post)"
  shows "replace_all dup_repl (n @ CHR ''F'' # post) = n @ CHR ''F'' # replace_all dup_repl post"
  using assms(1)
proof (induction n)
  case Nil
  show ?case by (simp add: dup_repl_def dup_at_not_digit)
next
  case (Cons d n)
  have "dup_at (d # n @ CHR ''F'' # post) = None"
  proof (rule ccontr)
    assume "dup_at (d # n @ CHR ''F'' # post) \<noteq> None"
    then obtain k rest where "dup_at ((d # n) @ CHR ''F'' # post) = Some (k, rest)" by auto
    then have k: "k \<noteq> []" "list_all is_digit k"
      and e: "(d # n) @ CHR ''F'' # post = k @ ''F'' @ k @ ''F'' @ rest"
      by (simp_all add: dup_at_iff)
    from e have "takeWhile is_digit ((d # n) @ CHR ''F'' # post) =
                 takeWhile is_digit (k @ ''F'' @ k @ ''F'' @ rest)"
      by (rule arg_cong)
    then have dk: "d # n = k"
      using Cons.prems k takeWhile_digits_stop [of "d # n" "CHR ''F''" post]
        takeWhile_digits_stop [of k "CHR ''F''" "k @ ''F'' @ rest"]
      by (simp del: takeWhile.simps)
    with e have "post = k @ ''F'' @ rest" by simp
    with k assms(2) show False by (cases k) auto
  qed
  with Cons show ?case by (simp add: dup_repl_def)
qed

lemma process_bare:
  assumes "n \<noteq> []" "list_all is_digit n"
    and "pre = [] \<or> (\<not> is_digit (last pre) \<and> last pre \<notin> set ''F[]'')"
    and "post = [] \<or> \<not> is_digit (hd post)"
  shows "processConlangInText (pre @ n @ ''F'' @ post) footMap =
         processConlangInText pre footMap @ conlang_span footMap n @
         processConlangInText post footMap"
proof (cases "pre = []")
  case True
  with normalize_bare_head [OF assms(2,4)] subst_bare_head [OF assms(1,2)]
  show ?thesis by (simp add: processConlangInText_def)
next
  case False
  let ?N = "replace_all dup_repl" and ?S = "replace_all (conlang_repl footMap)"
  from False obtain p c where pre: "pre = p @ [c]" by (cases pre rule: rev_cases) auto
  with assms False have c: "\<not> is_digit c" "c \<noteq> CHR ''F''" and c2: "c \<noteq> CHR '']''"
    and c3: "c \<noteq> CHR ''[''" by simp_all
  have 1: "?N (p @ c # n @ ''F'' @ post) = ?N p @ c # n @ ''F'' @ ?N post"
    using normalize_barrier [OF c, of p] normalize_bare_head [OF assms(2,4)] by simp
  have 2: "?N (p @ [c]) = ?N p @ [c]"
    using normalize_barrier [OF c, of p "[]"] by simp
  have b: "barrier (conlang_repl footMap) c"
    by (rule conlang_repl_barrier [OF c c2])
  have s: "\<And>r. ?S (c # r) = c # ?S r"
    using c c3 by (simp add: conlang_repl_def ref_at_not_start)
  have 3: "?S (?N p @ c # n @ ''F'' @ ?N post) = ?S (?N p) @ c # conlang_span footMap n @ ?S (?N post)"
    using replace_all_barrier [OF conlang_repl_consuming b, of "?N p"] s
      subst_bare_head [OF assms(1,2)] by simp
  have 4: "?S (?N p @ [c]) = ?S (?N p) @ [c]"
    using replace_all_barrier [OF conlang_repl_consuming b, of "?N p" "[]"] s by simp
  show ?thesis using pre 1 2 3 4 by (simp add: processConlangInText_def)
qed

section \<open>The footnote mapping\<close>

lemma map_get_map_set:
  "map_get (map_set m k v) k' = (if k' = k then Some v else map_get m k')"
  by (induction m) (auto simp: map_get_def)

lemma map_get_Nil [simp]: "map_get [] k = None"
  by (simp add: map_get_def)

text \<open>A loop whose steps either leave the map or set one key to a value that does not
  depend on the map: the entries it makes hide the older ones.\<close>

lemma foldl_set_last_wins:
  assumes "\<And>m x. f m x = (case upd x of None \<Rightarrow> m | Some kv \<Rightarrow> map_set m (fst kv) (snd kv))"
  shows "map_get (foldl f m xs) k =
         (case map_get (foldl f [] xs) k of Some v \<Rightarrow> Some v | None \<Rightarrow> map_get m k)"
proof (induction xs rule: rev_induct)
  case Nil
  show ?case by simp
next
  case (snoc x xs)
  show ?case
  proof (cases "upd x")
    case None
    with snoc assms show ?thesis by simp
  next
    case (Some kv)
    with snoc assms show ?thesis
      by (simp add: map_get_map_set)
  qed
qed

lemma new_Map_append:
  "map_get (new_Map (a @ b)) k =
   (case map_get (new_Map b) k of Some v \<Rightarrow> Some v | None \<Rightarrow> map_get (new_Map a) k)"
  unfolding new_Map_def foldl_append
  by (rule foldl_set_last_wins [where upd = Some]) simp

lemma keys_of_map_set:
  "map fst (map_set m k v) = (if k \<in> set (map fst m) then map fst m else map fst m @ [k])"
proof (induction m)
  case Nil
  show ?case by simp
next
  case (Cons a m)
  obtain k' v' where a: "a = (k', v')" by (cases a)
  show ?case
  proof (cases "k' = k")
    case True
    with a show ?thesis by simp
  next
    case False
    with a Cons show ?thesis by simp
  qed
qed

lemma distinct_map_set: "distinct (map fst m) \<Longrightarrow> distinct (map fst (map_set m k v))"
  by (simp add: keys_of_map_set)

lemma map_set_absent: "k \<notin> set (map fst m) \<Longrightarrow> map_set m k v = m @ [(k, v)]"
  by (induction m) auto

lemma new_Map_distinct:
  assumes "distinct (map fst es)" and "set (map fst m0) \<inter> set (map fst es) = {}"
  shows "foldl (\<lambda>m kv. map_set m (fst kv) (snd kv)) m0 es = m0 @ es"
  using assms
proof (induction es arbitrary: m0)
  case Nil
  show ?case by simp
next
  case (Cons e es)
  have "map_set m0 (fst e) (snd e) = m0 @ [e]"
    using Cons.prems by (simp add: map_set_absent)
  moreover have "set (map fst (m0 @ [e])) \<inter> set (map fst es) = {}"
    using Cons.prems by auto
  ultimately show ?case using Cons.IH [of "m0 @ [e]"] Cons.prems by simp
qed

lemma new_Map_id: "distinct (map fst es) \<Longrightarrow> new_Map es = es"
  using new_Map_distinct [of es "[]"] by (simp add: new_Map_def)

lemma footnote_entry_step:
  "footnote_entry m el =
     (case (let text = trim (text_of el) in
            case (case first_digits (attr el ''id'') of Some n \<Rightarrow> Some n | None \<Rightarrow> leading_num text) of
              None \<Rightarrow> None
            | Some n \<Rightarrow> if trim (strip_number text) \<noteq> [] then Some (n, trim (strip_number text)) else None)
      of None \<Rightarrow> m | Some kv \<Rightarrow> map_set m (fst kv) (snd kv))"
  by (simp add: footnote_entry_def Let_def split: option.splits)

lemma footnote_entry_distinct:
  "distinct (map fst m) \<Longrightarrow> distinct (map fst (footnote_entry m el))"
  by (simp add: footnote_entry_def Let_def distinct_map_set split: option.splits)

lemma scan_section_distinct:
  "distinct (map fst m) \<Longrightarrow> distinct (map fst (scan_section m s))"
proof -
  have "distinct (map fst m) \<Longrightarrow> distinct (map fst (foldl footnote_entry m xs))" for xs
    by (induction xs arbitrary: m) (simp_all add: footnote_entry_distinct)
  then show "distinct (map fst m) \<Longrightarrow> distinct (map fst (scan_section m s))"
    by (simp add: scan_section_def)
qed

lemma parse_footnotes_distinct: "distinct (map fst (snd (parseAndCleanFootnotes doc)))"
proof -
  have "distinct (map fst m) \<Longrightarrow> distinct (map fst (foldl scan_section m xs))" for m xs
    by (induction xs arbitrary: m) (simp_all add: scan_section_distinct)
  from this [of "[]"] show ?thesis by (simp add: parseAndCleanFootnotes_def Let_def)
qed

lemma selector_entry_distinct:
  "distinct (map fst m) \<Longrightarrow> distinct (map fst (selector_entry m el))"
  by (simp add: selector_entry_def Let_def distinct_map_set split: option.splits)

lemma sup_entry_distinct:
  "distinct (map fst m) \<Longrightarrow> distinct (map fst (sup_entry m ep))"
  by (simp add: sup_entry_def Let_def distinct_map_set split: option.splits)

lemma extractFootnotes_distinct: "distinct (map fst (extractFootnotes doc))"
proof -
  have 1: "distinct (map fst m) \<Longrightarrow> distinct (map fst (foldl selector_entry m xs))" for m xs
    by (induction xs arbitrary: m) (simp_all add: selector_entry_distinct)
  have 2: "distinct (map fst m) \<Longrightarrow> distinct (map fst (foldl sup_entry m xs))" for m xs
    by (induction xs arbitrary: m) (simp_all add: sup_entry_distinct)
  show ?thesis
    unfolding extractFootnotes_def sup_pass_def selector_pass_def
    by (intro 1 2) simp
qed

lemma sup_pass_last_wins:
  "map_get (sup_pass m doc) k =
   (case map_get (sup_pass [] doc) k of Some v \<Rightarrow> Some v | None \<Rightarrow> map_get m k)"
  unfolding sup_pass_def
  by (rule foldl_set_last_wins
      [where upd = "\<lambda>ep. if is_number (trim (text_of (fst ep)))
                          then (case find_note (trim (text_of (fst ep))) (text_of (snd ep)) of
                                  Some g \<Rightarrow> Some (trim (text_of (fst ep)), trim g) | None \<Rightarrow> None)
                          else None"])
     (simp add: sup_entry_def Let_def split: option.splits)

section \<open>Rewriting of reference elements\<close>

lemma set_dropWhile_keep: "c \<in> set s \<Longrightarrow> \<not> P c \<Longrightarrow> c \<in> set (dropWhile P s)"
  by (induction s) auto

lemma trim_keeps: "c \<in> set s \<Longrightarrow> \<not> is_space c \<Longrightarrow> c \<in> set (trim s)"
  by (simp add: trim_def set_dropWhile_keep)

lemma is_number_no_bracket: "is_number s \<Longrightarrow> CHR ''['' \<notin> set s"
  by (auto simp: is_number_def list_all_iff)

lemma bracket_not_space: "\<not> is_space CHR ''[''"
  by (simp add: is_space_def)

lemma is_ref_el_children: "is_ref_el (Element t as cs) = is_ref_el (Element t as cs')"
  by (simp add: is_ref_el_def)

lemma text_clean_refs:
  "text_of (clean_refs n) = text_of n \<or> CHR ''['' \<in> set (text_of (clean_refs n))"
proof (induction n)
  case (Text s)
  show ?case by simp
next
  case (Element t as cs)
  show ?case
  proof (cases "is_ref_el (Element t as cs) \<and> is_number (trim (text_of (Element t as cs)))")
    case True
    then show ?thesis by simp
  next
    case False
    show ?thesis
    proof (cases "\<forall>c \<in> set cs. text_of (clean_refs c) = text_of c")
      case True
      then have "map (\<lambda>x. text_of (clean_refs x)) cs = map text_of cs" by simp
      then have b: "concat (map (\<lambda>x. text_of (clean_refs x)) cs) = concat (map text_of cs)"
        by (rule arg_cong)
      have "clean_refs (Element t as cs) = Element t as (map clean_refs cs)"
        using False by simp
      then have a: "text_of (clean_refs (Element t as cs)) =
                 concat (map (\<lambda>x. text_of (clean_refs x)) cs)"
        by (simp add: comp_def)
      have c: "text_of (Element t as cs) = concat (map text_of cs)" by simp
      have "text_of (clean_refs (Element t as cs)) = text_of (Element t as cs)"
        unfolding a b c ..
      then show ?thesis ..
    next
      case no: False
      then obtain c where c: "c \<in> set cs" "text_of (clean_refs c) \<noteq> text_of c" by blast
      with Element.IH have "CHR ''['' \<in> set (text_of (clean_refs c))" by blast
      with c False show ?thesis by auto
    qed
  qed
qed

lemma clean_refs_idem: "clean_refs (clean_refs n) = clean_refs n"
proof (induction n)
  case (Text s)
  show ?case by simp
next
  case (Element t as cs)
  let ?e = "Element t as cs" and ?e' = "Element t as (map clean_refs cs)"
  show ?case
  proof (cases "is_ref_el ?e \<and> is_number (trim (text_of ?e))")
    case True
    then show ?thesis by simp
  next
    case False
    then have e': "clean_refs ?e = ?e'" by simp
    have "\<not> (is_ref_el ?e' \<and> is_number (trim (text_of ?e')))"
    proof
      assume a: "is_ref_el ?e' \<and> is_number (trim (text_of ?e'))"
      then have r: "is_ref_el ?e" using is_ref_el_children by blast
      from text_clean_refs [of ?e] e'
      have "text_of ?e' = text_of ?e \<or> CHR ''['' \<in> set (text_of ?e')" by simp
      then show False
      proof
        assume "text_of ?e' = text_of ?e"
        with a r False show False by simp
      next
        assume "CHR ''['' \<in> set (text_of ?e')"
        then have "CHR ''['' \<in> set (trim (text_of ?e'))"
          by (rule trim_keeps [OF _ bracket_not_space])
        with a is_number_no_bracket show False by blast
      qed
    qed
    then have "clean_refs ?e' = Element t as (map clean_refs (map clean_refs cs))"
      by (simp del: text_of.simps)
    moreover have "map clean_refs (map clean_refs cs) = map clean_refs cs"
      using Element.IH by simp
    ultimately show ?thesis using e' by simp
  qed
qed

section \<open>Properties of the heading patterns\<close>

lemma has_match_first_match: "has_match m s \<Longrightarrow> \<exists>g. first_match m s = Some g"
  by (induction s) (auto split: option.splits)

lemma first_match_has_match: "first_match m s = Some g \<Longrightarrow> has_match m s"
  by (induction s) (auto split: option.splits)

lemma first_match_suffix:
  "first_match m s = Some g \<Longrightarrow> \<exists>u v rest. s = u @ v \<and> m v = Some (g, rest)"
proof (induction s)
  case Nil
  then show ?case by simp
next
  case (Cons c cs)
  show ?case
  proof (cases "m (c # cs)")
    case None
    with Cons obtain u v rest where "cs = u @ v" "m v = Some (g, rest)" by auto
    then have "c # cs = (c # u) @ v" by simp
    with \<open>m v = Some (g, rest)\<close> show ?thesis by blast
  next
    case (Some a)
    with Cons.prems obtain rest where "m (c # cs) = Some (g, rest)"
      by (cases a) auto
    then show ?thesis by (metis append_Nil)
  qed
qed

lemma space_not_word: "is_space c \<Longrightarrow> \<not> is_word c"
  by (auto simp: is_space_def is_word_def)

lemma lower_space: "is_space (lower c) \<Longrightarrow> is_space c"
  by (simp add: lower_def upper_chars_def lower_chars_def is_space_def split: if_splits)

lemma dash_spaces_id: "\<forall>c \<in> set s. \<not> is_space c \<Longrightarrow> dash_spaces s = s"
  by (induction s) simp_all

lemma chapter_at_token:
  assumes "chapter_at s = Some (tok, rest)"
  shows "\<forall>c \<in> set tok. is_word c \<or> c = CHR ''-''"
proof -
  have w: "\<forall>c \<in> set (takeWhile is_word x). is_word c" for x
    by (auto dest: set_takeWhileD)
  from assms show ?thesis
    using w by (auto simp: chapter_at_def Let_def split: if_splits list.splits)
qed

lemma chapter_token_id:
  assumes "first_match chapter_at s = Some tok"
  shows "dash_spaces (map lower tok) = map lower tok"
proof (rule dash_spaces_id, rule ballI)
  fix c assume "c \<in> set (map lower tok)"
  then obtain d where d: "d \<in> set tok" "c = lower d" by auto
  from assms obtain u v rest where "chapter_at v = Some (tok, rest)"
    using first_match_suffix by blast
  with d chapter_at_token have "is_word d \<or> d = CHR ''-''" by blast
  then have "\<not> is_space d"
    using space_not_word by (auto simp: is_space_def)
  with d lower_space show "\<not> is_space c" by blast
qed

lemma chapter_test_iff: "chapter_test_at s \<noteq> None \<longleftrightarrow> chapter_at s \<noteq> None"
  by (simp add: chapter_test_at_def chapter_at_def Let_def split: list.splits)

lemma has_match_chapter_test: "has_match chapter_test_at s = has_match chapter_at s"
proof (induction s)
  case Nil
  show ?case by simp
next
  case (Cons c cs)
  show ?case
    unfolding has_match.simps Cons chapter_test_iff ..
qed

section \<open>Footnote sections and their entries\<close>

lemma run_takeWhile: "list_all P a \<Longrightarrow> r = [] \<or> \<not> P (hd r) \<Longrightarrow> takeWhile P (a @ r) = a"
  by (induction a) (cases r; simp)+

lemma run_dropWhile: "list_all P a \<Longrightarrow> r = [] \<or> \<not> P (hd r) \<Longrightarrow> dropWhile P (a @ r) = r"
  by (induction a) (cases r; simp)+







lemma digit_not_space: "is_digit c \<Longrightarrow> \<not> is_space c"
  by (auto simp: is_digit_def is_space_def)


















lemma is_footnote_section_Text [simp]: "\<not> is_footnote_section (Text s)"
  by (simp add: is_footnote_section_def)















section \<open>The shapes of the chapter patterns\<close>

lemma has_match_iff: "has_match m s \<longleftrightarrow> (\<exists>u v. s = u @ v \<and> v \<noteq> [] \<and> m v \<noteq> None)"
proof (induction s)
  case Nil
  show ?case by simp
next
  case (Cons c cs)
  show ?case
  proof
    assume "has_match m (c # cs)"
    then consider "m (c # cs) \<noteq> None" | "has_match m cs" by auto
    then show "\<exists>u v. c # cs = u @ v \<and> v \<noteq> [] \<and> m v \<noteq> None"
    proof cases
      case 1
      then have "c # cs = [] @ (c # cs) \<and> c # cs \<noteq> [] \<and> m (c # cs) \<noteq> None" by simp
      then show ?thesis by (intro exI)
    next
      case 2
      with Cons obtain u v where "cs = u @ v" "v \<noteq> []" "m v \<noteq> None" by blast
      then have "c # cs = (c # u) @ v \<and> v \<noteq> [] \<and> m v \<noteq> None" by simp
      then show ?thesis by (intro exI)
    qed
  next
    assume "\<exists>u v. c # cs = u @ v \<and> v \<noteq> [] \<and> m v \<noteq> None"
    then obtain u v where uv: "c # cs = u @ v" "v \<noteq> []" "m v \<noteq> None" by blast
    show "has_match m (c # cs)"
    proof (cases u)
      case Nil
      with uv have "m (c # cs) \<noteq> None" by simp
      then show ?thesis by simp
    next
      case (Cons a u')
      with uv have "cs = u' @ v" by simp
      with uv have "\<exists>u v. cs = u @ v \<and> v \<noteq> [] \<and> m v \<noteq> None" by blast
      then have "has_match m cs" using Cons.IH by simp
      then show ?thesis by simp
    qed
  qed
qed

lemma first_match_skip:
  assumes "\<And>u1 u2. u = u1 @ u2 \<Longrightarrow> u2 \<noteq> [] \<Longrightarrow> m (u2 @ v) = None"
  shows "first_match m (u @ v) = first_match m v"
  using assms
proof (induction u)
  case Nil
  show ?case by simp
next
  case (Cons c u)
  have "m ((c # u) @ v) = None"
    using Cons.prems [of "[]" "c # u"] by simp
  moreover have "first_match m (u @ v) = first_match m v"
  proof (rule Cons.IH)
    fix u1 u2 assume "u = u1 @ u2" "u2 \<noteq> []"
    then show "m (u2 @ v) = None" using Cons.prems [of "c # u1" u2] by simp
  qed
  ultimately show ?case by simp
qed

lemma first_match_here: "m v = Some (g, rest) \<Longrightarrow> v \<noteq> [] \<Longrightarrow> first_match m v = Some g"
  by (cases v) simp_all

lemma first_match_none: "first_match m s = None \<longleftrightarrow> \<not> has_match m s"
  using has_match_first_match [of m s] first_match_has_match [of m s] by (cases "first_match m s") auto

lemma contains_prefix: "prefix pat y \<Longrightarrow> contains pat y"
  by (cases y) simp_all

lemma contains_append: "prefix pat y \<Longrightarrow> contains pat (x @ y)"
  by (induction x) (simp_all add: contains_prefix)

lemma ci_prefix_split: "ci_prefix pat s \<longleftrightarrow> (\<exists>k r. s = k @ r \<and> map lower k = pat)"
proof
  assume "ci_prefix pat s"
  then obtain z where z: "map lower s = pat @ z" by (auto simp: ci_prefix_def prefix_def)
  have "map lower (take (length pat) s) = take (length pat) (map lower s)" by (simp add: take_map)
  also have "\<dots> = pat" by (simp add: z)
  finally have "s = take (length pat) s @ drop (length pat) s \<and>
      map lower (take (length pat) s) = pat" by simp
  then show "\<exists>k r. s = k @ r \<and> map lower k = pat" by (intro exI)
next
  assume "\<exists>k r. s = k @ r \<and> map lower k = pat"
  then obtain k r where "s = k @ r" "map lower k = pat" by blast
  then have "map lower s = pat @ map lower r" by simp
  then show "ci_prefix pat s" by (simp add: ci_prefix_def)
qed

lemma keyword_length: "map lower k = ''chapter'' \<Longrightarrow> length k = 7"
proof -
  assume "map lower k = ''chapter''"
  then have "length (map lower k) = length ''chapter''" by (rule arg_cong)
  then show ?thesis by simp
qed

text \<open>The keyword and the white space behind it, the common start of the three
  chapter patterns.\<close>

lemma keyword_join:
  assumes "map lower k = ''chapter''" and "list_all is_space ws"
    and "x = [] \<or> \<not> is_space (hd x)"
  shows "ci_prefix ''chapter'' (k @ ws @ x)"
    and "takeWhile is_space (drop 7 (k @ ws @ x)) = ws"
    and "dropWhile is_space (drop 7 (k @ ws @ x)) = x"
proof -
  have "k @ ws @ x = k @ (ws @ x) \<and> map lower k = ''chapter''" using assms(1) by simp
  then have "\<exists>k' r. k @ ws @ x = k' @ r \<and> map lower k' = ''chapter''" by (intro exI)
  then show "ci_prefix ''chapter'' (k @ ws @ x)" unfolding ci_prefix_split .
  have d: "drop 7 (k @ ws @ x) = ws @ x"
    using keyword_length [OF assms(1)] by simp
  show "takeWhile is_space (drop 7 (k @ ws @ x)) = ws"
    unfolding d using assms(2,3) by (rule run_takeWhile)
  show "dropWhile is_space (drop 7 (k @ ws @ x)) = x"
    unfolding d using assms(2,3) by (rule run_dropWhile)
qed

lemma keyword_split:
  assumes "ci_prefix ''chapter'' v" and "takeWhile is_space (drop 7 v) \<noteq> []"
  shows "\<exists>k ws. v = k @ ws @ dropWhile is_space (drop 7 v) \<and> map lower k = ''chapter'' \<and>
           ws \<noteq> [] \<and> list_all is_space ws"
proof -
  from assms(1) have "\<exists>k r. v = k @ r \<and> map lower k = ''chapter''"
    unfolding ci_prefix_split .
  then obtain k where "\<exists>r. v = k @ r \<and> map lower k = ''chapter''" ..
  then obtain r where "v = k @ r \<and> map lower k = ''chapter''" ..
  then have kr: "v = k @ r" "map lower k = ''chapter''" by simp_all
  have d: "drop 7 v = r" using keyword_length [OF kr(2)] kr(1) by simp
  have "r = takeWhile is_space r @ dropWhile is_space r" by simp
  then have "v = k @ takeWhile is_space r @ dropWhile is_space (drop 7 v)"
    using kr(1) d by simp
  moreover have "takeWhile is_space r \<noteq> []" using assms(2) d by simp
  moreover have "list_all is_space (takeWhile is_space r)" by (rule list_all_takeWhile)
  ultimately have "v = k @ takeWhile is_space r @ dropWhile is_space (drop 7 v) \<and>
      map lower k = ''chapter'' \<and> takeWhile is_space r \<noteq> [] \<and>
      list_all is_space (takeWhile is_space r)"
    using kr(2) by (intro conjI)
  then show ?thesis by (intro exI)
qed

lemma takeWhile_hd: "takeWhile P s \<noteq> [] \<Longrightarrow> \<exists>c r. s = c # r \<and> P c"
  by (cases s) (simp_all split: if_splits)

lemma chapter_test_shape:
  "chapter_test_at v \<noteq> None \<longleftrightarrow>
     (\<exists>k ws w r. v = k @ ws @ w # r \<and> map lower k = ''chapter'' \<and> ws \<noteq> [] \<and>
        list_all is_space ws \<and> is_word w)"
proof
  assume a: "chapter_test_at v \<noteq> None"
  then have c: "ci_prefix ''chapter'' v"
    by (simp add: chapter_test_at_def split: if_splits)
  from a c have s: "takeWhile is_space (drop 7 v) \<noteq> []"
    and w: "takeWhile is_word (dropWhile is_space (drop 7 v)) \<noteq> []"
    by (simp_all add: chapter_test_at_def Let_def split: if_splits)
  from keyword_split [OF c s] obtain k where
    "\<exists>ws. v = k @ ws @ dropWhile is_space (drop 7 v) \<and> map lower k = ''chapter'' \<and>
           ws \<noteq> [] \<and> list_all is_space ws" ..
  then obtain ws where
    h: "v = k @ ws @ dropWhile is_space (drop 7 v) \<and> map lower k = ''chapter'' \<and>
           ws \<noteq> [] \<and> list_all is_space ws" ..
  note k = h [THEN conjunct1] h [THEN conjunct2, THEN conjunct1]
    h [THEN conjunct2, THEN conjunct2, THEN conjunct1]
    h [THEN conjunct2, THEN conjunct2, THEN conjunct2]
  from takeWhile_hd [OF w] obtain c r where
    "dropWhile is_space (drop 7 v) = c # r" "is_word c" by blast
  with k have "v = k @ ws @ c # r \<and> map lower k = ''chapter'' \<and> ws \<noteq> [] \<and>
        list_all is_space ws \<and> is_word c" by simp
  then show "\<exists>k ws w r. v = k @ ws @ w # r \<and> map lower k = ''chapter'' \<and> ws \<noteq> [] \<and>
        list_all is_space ws \<and> is_word w" by (intro exI)
next
  assume "\<exists>k ws w r. v = k @ ws @ w # r \<and> map lower k = ''chapter'' \<and> ws \<noteq> [] \<and>
        list_all is_space ws \<and> is_word w"
  then obtain k where "\<exists>ws w r. v = k @ ws @ w # r \<and> map lower k = ''chapter'' \<and>
        ws \<noteq> [] \<and> list_all is_space ws \<and> is_word w" ..
  then obtain ws where "\<exists>w r. v = k @ ws @ w # r \<and> map lower k = ''chapter'' \<and>
        ws \<noteq> [] \<and> list_all is_space ws \<and> is_word w" ..
  then obtain w where "\<exists>r. v = k @ ws @ w # r \<and> map lower k = ''chapter'' \<and>
        ws \<noteq> [] \<and> list_all is_space ws \<and> is_word w" ..
  then obtain r where h: "v = k @ ws @ w # r \<and> map lower k = ''chapter'' \<and>
        ws \<noteq> [] \<and> list_all is_space ws \<and> is_word w" ..
  note v = h [THEN conjunct1]
    and k = h [THEN conjunct2, THEN conjunct1]
    and ws = h [THEN conjunct2, THEN conjunct2, THEN conjunct1]
      h [THEN conjunct2, THEN conjunct2, THEN conjunct2, THEN conjunct1]
    and w = h [THEN conjunct2, THEN conjunct2, THEN conjunct2, THEN conjunct2]
  have x: "w # r = [] \<or> \<not> is_space (hd (w # r))"
    using w space_not_word by auto
  note j = keyword_join [OF k ws(2) x]
  show "chapter_test_at v \<noteq> None"
    unfolding v chapter_test_at_def Let_def j using j(1) ws(1) w by simp
qed

lemma heading_shape:
  "has_match chapter_test_at t \<longleftrightarrow>
     (\<exists>u k ws w r. t = u @ k @ ws @ w # r \<and> map lower k = ''chapter'' \<and> ws \<noteq> [] \<and>
        list_all is_space ws \<and> is_word w)"
proof
  assume "has_match chapter_test_at t"
  then obtain u v where t: "t = u @ v" and nn: "chapter_test_at v \<noteq> None"
    unfolding has_match_iff by blast
  from nn have "\<exists>k ws w r. v = k @ ws @ w # r \<and> map lower k = ''chapter'' \<and> ws \<noteq> [] \<and>
        list_all is_space ws \<and> is_word w"
    unfolding chapter_test_shape .
  then obtain k where "\<exists>ws w r. v = k @ ws @ w # r \<and> map lower k = ''chapter'' \<and>
        ws \<noteq> [] \<and> list_all is_space ws \<and> is_word w" ..
  then obtain ws where "\<exists>w r. v = k @ ws @ w # r \<and> map lower k = ''chapter'' \<and>
        ws \<noteq> [] \<and> list_all is_space ws \<and> is_word w" ..
  then obtain w where "\<exists>r. v = k @ ws @ w # r \<and> map lower k = ''chapter'' \<and>
        ws \<noteq> [] \<and> list_all is_space ws \<and> is_word w" ..
  then obtain r where "v = k @ ws @ w # r \<and> map lower k = ''chapter'' \<and>
        ws \<noteq> [] \<and> list_all is_space ws \<and> is_word w" ..
  with t have "t = u @ k @ ws @ w # r \<and> map lower k = ''chapter'' \<and> ws \<noteq> [] \<and>
        list_all is_space ws \<and> is_word w" by simp
  then show "\<exists>u k ws w r. t = u @ k @ ws @ w # r \<and> map lower k = ''chapter'' \<and> ws \<noteq> [] \<and>
        list_all is_space ws \<and> is_word w" by (intro exI)
next
  assume "\<exists>u k ws w r. t = u @ k @ ws @ w # r \<and> map lower k = ''chapter'' \<and> ws \<noteq> [] \<and>
        list_all is_space ws \<and> is_word w"
  then obtain u where "\<exists>k ws w r. t = u @ k @ ws @ w # r \<and> map lower k = ''chapter'' \<and>
        ws \<noteq> [] \<and> list_all is_space ws \<and> is_word w" ..
  then obtain k where "\<exists>ws w r. t = u @ k @ ws @ w # r \<and> map lower k = ''chapter'' \<and>
        ws \<noteq> [] \<and> list_all is_space ws \<and> is_word w" ..
  then obtain ws where "\<exists>w r. t = u @ k @ ws @ w # r \<and> map lower k = ''chapter'' \<and>
        ws \<noteq> [] \<and> list_all is_space ws \<and> is_word w" ..
  then obtain w where "\<exists>r. t = u @ k @ ws @ w # r \<and> map lower k = ''chapter'' \<and>
        ws \<noteq> [] \<and> list_all is_space ws \<and> is_word w" ..
  then obtain r where h: "t = u @ k @ ws @ w # r \<and> map lower k = ''chapter'' \<and>
        ws \<noteq> [] \<and> list_all is_space ws \<and> is_word w" ..
  note t = h [THEN conjunct1]
    and k = h [THEN conjunct2, THEN conjunct1]
    and ws = h [THEN conjunct2, THEN conjunct2, THEN conjunct1]
      h [THEN conjunct2, THEN conjunct2, THEN conjunct2, THEN conjunct1]
    and w = h [THEN conjunct2, THEN conjunct2, THEN conjunct2, THEN conjunct2]
  have "\<exists>k' ws' w' r'. k @ ws @ w # r = k' @ ws' @ w' # r' \<and> map lower k' = ''chapter'' \<and>
      ws' \<noteq> [] \<and> list_all is_space ws' \<and> is_word w'"
    using k ws w by (intro exI [of _ k] exI [of _ ws] exI [of _ w] exI [of _ r]) simp
  then have "chapter_test_at (k @ ws @ w # r) \<noteq> None" unfolding chapter_test_shape .
  then have "t = u @ (k @ ws @ w # r) \<and> k @ ws @ w # r \<noteq> [] \<and>
      chapter_test_at (k @ ws @ w # r) \<noteq> None" using t by simp
  then have "\<exists>u v. t = u @ v \<and> v \<noteq> [] \<and> chapter_test_at v \<noteq> None" by (intro exI)
  then show "has_match chapter_test_at t" unfolding has_match_iff .
qed

text \<open>No match of a chapter pattern starts in front of the first keyword.\<close>

lemma no_keyword_before:
  assumes "\<not> contains ''chapter'' (map lower (u @ butlast k))"
    and "map lower k = ''chapter''" and "u = u1 @ u2" and "u2 \<noteq> []"
  shows "\<not> ci_prefix ''chapter'' (u2 @ k @ rest)"
proof
  assume "ci_prefix ''chapter'' (u2 @ k @ rest)"
  then have p: "prefix ''chapter'' (map lower (u2 @ k @ rest))" by (simp add: ci_prefix_def)
  have k: "k = butlast k @ [last k]"
    using keyword_length [OF assms(2)] by (cases k rule: rev_cases) simp_all
  have "k @ rest = butlast k @ last k # rest"
    using arg_cong [OF k, of "\<lambda>x. x @ rest"] by simp
  then have "u2 @ k @ rest = (u2 @ butlast k) @ last k # rest" by simp
  then have "map lower (u2 @ k @ rest) =
      map lower (u2 @ butlast k) @ map lower (last k # rest)"
    by (simp only: map_append)
  then have q: "prefix (map lower (u2 @ butlast k)) (map lower (u2 @ k @ rest))"
    by (rule prefixI)
  have "length ''chapter'' \<le> length (map lower (u2 @ butlast k))"
    using keyword_length [OF assms(2)] assms(4) by (cases u2) simp_all
  with p q have "prefix ''chapter'' (map lower (u2 @ butlast k))"
    by (rule prefix_length_prefix)
  then have "contains ''chapter'' (map lower u1 @ map lower (u2 @ butlast k))"
    by (rule contains_append)
  with assms(1,3) show False by simp
qed

lemma first_match_first_keyword:
  assumes "\<not> contains ''chapter'' (map lower (u @ butlast k))"
    and "map lower k = ''chapter''"
    and "\<And>s. \<not> ci_prefix ''chapter'' s \<Longrightarrow> m s = None"
    and "m (k @ rest) = Some (g, rest')"
  shows "first_match m (u @ k @ rest) = Some g"
proof -
  have "first_match m (u @ k @ rest) = first_match m (k @ rest)"
  proof (rule first_match_skip)
    fix u1 u2 assume "u = u1 @ u2" "u2 \<noteq> []"
    with assms(1,2) have "\<not> ci_prefix ''chapter'' (u2 @ k @ rest)" by (rule no_keyword_before)
    then show "m (u2 @ k @ rest) = None" by (rule assms(3))
  qed
  moreover have "k @ rest \<noteq> []" using keyword_length [OF assms(2)] by auto
  ultimately show ?thesis using first_match_here [of m "k @ rest" g rest', OF assms(4)] by simp
qed

lemma hyphen_not_word: "\<not> is_word CHR ''-''"
  by (simp add: is_word_def)

lemma word_hd_not_space: "w \<noteq> [] \<Longrightarrow> list_all is_word w \<Longrightarrow> \<not> is_space (hd (w @ r))"
  using space_not_word by (cases w) auto

text \<open>The token of \<open>chapter_at\<close>: one run of word characters, or two runs with a
  hyphen between them.\<close>

lemma chapter_at_plain:
  assumes "map lower k = ''chapter''" and "ws \<noteq> []" and "list_all is_space ws"
    and "w1 \<noteq> []" and "list_all is_word w1"
    and "r = [] \<or> (\<not> is_word (hd r) \<and>
           (hd r \<noteq> CHR ''-'' \<or> tl r = [] \<or> \<not> is_word (hd (tl r))))"
  shows "chapter_at (k @ ws @ w1 @ r) = Some (w1, r)"
proof -
  have x: "w1 @ r = [] \<or> \<not> is_space (hd (w1 @ r))"
    using word_hd_not_space [OF assms(4,5)] by simp
  note j = keyword_join [OF assms(1,3) x]
  have nw: "r = [] \<or> \<not> is_word (hd r)" using assms(6) by (rule disjE) simp_all
  have t: "takeWhile is_word (w1 @ r) = w1" using assms(5) nw by (rule run_takeWhile)
  have d: "dropWhile is_word (w1 @ r) = r" using assms(5) nw by (rule run_dropWhile)
  have c: "(case r of [] \<Rightarrow> Some (w1, r)
            | c # r3 \<Rightarrow> if c = CHR ''-'' \<and> takeWhile is_word r3 \<noteq> []
                then Some (w1 @ ''-'' @ takeWhile is_word r3, dropWhile is_word r3)
                else Some (w1, r)) = Some (w1, r)"
  proof (cases r)
    case Nil
    then show ?thesis by simp
  next
    case (Cons c r3)
    with assms(6) have "c \<noteq> CHR ''-'' \<or> r3 = [] \<or> \<not> is_word (hd r3)" by simp
    then have "c \<noteq> CHR ''-'' \<or> takeWhile is_word r3 = []" by (cases r3) auto
    then show ?thesis unfolding Cons by auto
  qed
  show ?thesis
    unfolding chapter_at_def Let_def j t d c using j(1) assms(2,4) by simp
qed

lemma chapter_at_hyphen:
  assumes "map lower k = ''chapter''" and "ws \<noteq> []" and "list_all is_space ws"
    and "w1 \<noteq> []" and "list_all is_word w1" and "w2 \<noteq> []" and "list_all is_word w2"
    and "r = [] \<or> \<not> is_word (hd r)"
  shows "chapter_at (k @ ws @ w1 @ CHR ''-'' # w2 @ r) = Some (w1 @ ''-'' @ w2, r)"
proof -
  let ?r = "CHR ''-'' # w2 @ r"
  have x: "w1 @ ?r = [] \<or> \<not> is_space (hd (w1 @ ?r))"
    using word_hd_not_space [OF assms(4,5)] by simp
  note j = keyword_join [OF assms(1,3) x]
  have nw: "?r = [] \<or> \<not> is_word (hd ?r)" using hyphen_not_word by simp
  have t: "takeWhile is_word (w1 @ ?r) = w1" using assms(5) nw by (rule run_takeWhile)
  have d: "dropWhile is_word (w1 @ ?r) = ?r" using assms(5) nw by (rule run_dropWhile)
  have t2: "takeWhile is_word (w2 @ r) = w2" using assms(7,8) by (rule run_takeWhile)
  have d2: "dropWhile is_word (w2 @ r) = r" using assms(7,8) by (rule run_dropWhile)
  show ?thesis
    unfolding chapter_at_def Let_def j t d using j(1) assms(2,4,6) by (simp add: t2 d2)
qed

lemma chapter_at_keyword: "\<not> ci_prefix ''chapter'' s \<Longrightarrow> chapter_at s = None"
  by (simp add: chapter_at_def)

lemma chapter_kw_at_keyword: "\<not> ci_prefix ''chapter'' s \<Longrightarrow> chapter_kw_at s = None"
  by (simp add: chapter_kw_at_def)

text \<open>The chapter that \<open>step\<close> opens.\<close>

lemma length_on_last [simp]: "length (on_last f xs) = length xs"
  by (simp add: on_last_def)

lemma step_opens_chapter:
  assumes "tag el = ''h1'' \<or> tag el = ''h2''" and "\<not> appendix_rx (trim (text_of el))"
    and "has_match chapter_test_at (trim (text_of el))"
  shows "chapters (step render st (el, prev)) =
         chapters st @
           [\<lparr>title = trim (text_of el),
             cid = ''chapter-'' @ dash_spaces (map lower (chapterNum (trim (text_of el)))),
             numericId = chapterNum (trim (text_of el)),
             referenceId = (case find_bracket_num (render (children el)) of
                              Some n \<Rightarrow> n | None \<Rightarrow> []),
             content = []\<rparr>]"
  using assms by (simp add: step_def Let_def split: option.splits)

lemma step_no_chapter:
  assumes "\<not> has_match chapter_test_at (trim (text_of el))"
  shows "length (chapters (step render st (el, prev))) = length (chapters st)"
  using assms by (simp add: step_def Let_def push_chapter_def push_appendix_def split: option.splits)

lemma step_chapter_token:
  assumes "tag el = ''h1'' \<or> tag el = ''h2''" and "\<not> appendix_rx (trim (text_of el))"
    and "first_match chapter_at (trim (text_of el)) = Some tok"
  shows "chapters (step render st (el, prev)) =
         chapters st @
           [\<lparr>title = trim (text_of el),
             cid = ''chapter-'' @ map lower tok,
             numericId = tok,
             referenceId = (case find_bracket_num (render (children el)) of
                              Some n \<Rightarrow> n | None \<Rightarrow> []),
             content = []\<rparr>]"
proof -
  have h: "has_match chapter_test_at (trim (text_of el))"
    unfolding has_match_chapter_test using assms(3) by (rule first_match_has_match)
  have n: "chapterNum (trim (text_of el)) = tok" using assms(3) by (simp add: chapterNum_def)
  show ?thesis
    unfolding step_opens_chapter [OF assms(1,2) h] n chapter_token_id [OF assms(3)] ..
qed

text \<open>The pattern of index.js.\<close>

lemma letter_word: "is_letter c \<Longrightarrow> is_word c"
  by (auto simp: is_letter_def is_word_def)

lemma letter_not_space: "is_letter c \<Longrightarrow> \<not> is_space c"
  using letter_word space_not_word by blast

lemma letter_not_digit: "is_letter c \<Longrightarrow> \<not> is_digit c"
  by (auto simp: is_letter_def is_digit_def)

lemma chapter_kw_digits:
  assumes "map lower k = ''chapter''" and "ws \<noteq> []" and "list_all is_space ws"
    and "tok \<noteq> []" and "list_all is_digit tok" and "r = [] \<or> \<not> is_digit (hd r)"
  shows "chapter_kw_at (k @ ws @ tok @ r) = Some (tok, r)"
proof -
  from assms(4,5) have "is_digit (hd (tok @ r))" by (cases tok) simp_all
  then have x: "tok @ r = [] \<or> \<not> is_space (hd (tok @ r))"
    using digit_not_space by blast
  note j = keyword_join [OF assms(1,3) x]
  have t: "takeWhile is_digit (tok @ r) = tok" using assms(5,6) by (rule run_takeWhile)
  have d: "dropWhile is_digit (tok @ r) = r" using assms(5,6) by (rule run_dropWhile)
  show ?thesis
    unfolding chapter_kw_at_def Let_def j t d using j(1) assms(2,4) by simp
qed

lemma chapter_kw_letters:
  assumes "map lower k = ''chapter''" and "ws \<noteq> []" and "list_all is_space ws"
    and "tok \<noteq> []" and "list_all is_letter tok" and "r = [] \<or> \<not> is_letter (hd r)"
  shows "chapter_kw_at (k @ ws @ tok @ r) = Some (tok, r)"
proof -
  from assms(4,5) have l: "is_letter (hd (tok @ r))" by (cases tok) simp_all
  then have x: "tok @ r = [] \<or> \<not> is_space (hd (tok @ r))"
    using letter_not_space by blast
  note j = keyword_join [OF assms(1,3) x]
  have "\<not> is_digit (hd (tok @ r))" using l by (rule letter_not_digit)
  then have n: "takeWhile is_digit (tok @ r) = []"
    using assms(4) by (cases tok) simp_all
  have t: "takeWhile is_letter (tok @ r) = tok" using assms(5,6) by (rule run_takeWhile)
  have d: "dropWhile is_letter (tok @ r) = r" using assms(5,6) by (rule run_dropWhile)
  show ?thesis
    unfolding chapter_kw_at_def Let_def j n t d using j(1) assms(2,4) by simp
qed

lemma chapter_kw_shape:
  "chapter_kw_at v \<noteq> None \<longleftrightarrow>
     (\<exists>k ws c r. v = k @ ws @ c # r \<and> map lower k = ''chapter'' \<and> ws \<noteq> [] \<and>
        list_all is_space ws \<and> (is_digit c \<or> is_letter c))"
proof
  assume a: "chapter_kw_at v \<noteq> None"
  then have c: "ci_prefix ''chapter'' v"
    by (simp add: chapter_kw_at_def split: if_splits)
  from a c have s: "takeWhile is_space (drop 7 v) \<noteq> []"
    and w: "takeWhile is_digit (dropWhile is_space (drop 7 v)) \<noteq> [] \<or>
            takeWhile is_letter (dropWhile is_space (drop 7 v)) \<noteq> []"
    by (simp_all add: chapter_kw_at_def Let_def split: if_splits)
  from keyword_split [OF c s] obtain k where
    "\<exists>ws. v = k @ ws @ dropWhile is_space (drop 7 v) \<and> map lower k = ''chapter'' \<and>
           ws \<noteq> [] \<and> list_all is_space ws" ..
  then obtain ws where
    h: "v = k @ ws @ dropWhile is_space (drop 7 v) \<and> map lower k = ''chapter'' \<and>
           ws \<noteq> [] \<and> list_all is_space ws" ..
  note k = h [THEN conjunct1] h [THEN conjunct2, THEN conjunct1]
    h [THEN conjunct2, THEN conjunct2, THEN conjunct1]
    h [THEN conjunct2, THEN conjunct2, THEN conjunct2]
  from w obtain c r where
    "dropWhile is_space (drop 7 v) = c # r" "is_digit c \<or> is_letter c"
    using takeWhile_hd [of is_digit] takeWhile_hd [of is_letter] by blast
  with k have "v = k @ ws @ c # r \<and> map lower k = ''chapter'' \<and> ws \<noteq> [] \<and>
        list_all is_space ws \<and> (is_digit c \<or> is_letter c)" by simp
  then show "\<exists>k ws c r. v = k @ ws @ c # r \<and> map lower k = ''chapter'' \<and> ws \<noteq> [] \<and>
        list_all is_space ws \<and> (is_digit c \<or> is_letter c)" by (intro exI)
next
  assume "\<exists>k ws c r. v = k @ ws @ c # r \<and> map lower k = ''chapter'' \<and> ws \<noteq> [] \<and>
        list_all is_space ws \<and> (is_digit c \<or> is_letter c)"
  then obtain k where "\<exists>ws c r. v = k @ ws @ c # r \<and> map lower k = ''chapter'' \<and>
        ws \<noteq> [] \<and> list_all is_space ws \<and> (is_digit c \<or> is_letter c)" ..
  then obtain ws where "\<exists>c r. v = k @ ws @ c # r \<and> map lower k = ''chapter'' \<and>
        ws \<noteq> [] \<and> list_all is_space ws \<and> (is_digit c \<or> is_letter c)" ..
  then obtain c where "\<exists>r. v = k @ ws @ c # r \<and> map lower k = ''chapter'' \<and>
        ws \<noteq> [] \<and> list_all is_space ws \<and> (is_digit c \<or> is_letter c)" ..
  then obtain r where h: "v = k @ ws @ c # r \<and> map lower k = ''chapter'' \<and>
        ws \<noteq> [] \<and> list_all is_space ws \<and> (is_digit c \<or> is_letter c)" ..
  note v = h [THEN conjunct1]
    and k = h [THEN conjunct2, THEN conjunct1]
    and ws = h [THEN conjunct2, THEN conjunct2, THEN conjunct1]
      h [THEN conjunct2, THEN conjunct2, THEN conjunct2, THEN conjunct1]
    and c = h [THEN conjunct2, THEN conjunct2, THEN conjunct2, THEN conjunct2]
  have x: "c # r = [] \<or> \<not> is_space (hd (c # r))"
    using c digit_not_space letter_not_space by auto
  note j = keyword_join [OF k ws(2) x]
  from c show "chapter_kw_at v \<noteq> None"
  proof
    assume "is_digit c"
    then show ?thesis
      unfolding v chapter_kw_at_def Let_def j using j(1) ws(1) by simp
  next
    assume "is_letter c"
    then show ?thesis
      unfolding v chapter_kw_at_def Let_def j using j(1) ws(1) by simp
  qed
qed

lemma heading_kw_shape:
  "has_match chapter_kw_at t \<longleftrightarrow>
     (\<exists>u k ws c r. t = u @ k @ ws @ c # r \<and> map lower k = ''chapter'' \<and> ws \<noteq> [] \<and>
        list_all is_space ws \<and> (is_digit c \<or> is_letter c))"
proof
  assume "has_match chapter_kw_at t"
  then obtain u v where t: "t = u @ v" and nn: "chapter_kw_at v \<noteq> None"
    unfolding has_match_iff by blast
  from nn have "\<exists>k ws c r. v = k @ ws @ c # r \<and> map lower k = ''chapter'' \<and> ws \<noteq> [] \<and>
        list_all is_space ws \<and> (is_digit c \<or> is_letter c)"
    unfolding chapter_kw_shape .
  then obtain k where "\<exists>ws c r. v = k @ ws @ c # r \<and> map lower k = ''chapter'' \<and>
        ws \<noteq> [] \<and> list_all is_space ws \<and> (is_digit c \<or> is_letter c)" ..
  then obtain ws where "\<exists>c r. v = k @ ws @ c # r \<and> map lower k = ''chapter'' \<and>
        ws \<noteq> [] \<and> list_all is_space ws \<and> (is_digit c \<or> is_letter c)" ..
  then obtain c where "\<exists>r. v = k @ ws @ c # r \<and> map lower k = ''chapter'' \<and>
        ws \<noteq> [] \<and> list_all is_space ws \<and> (is_digit c \<or> is_letter c)" ..
  then obtain r where "v = k @ ws @ c # r \<and> map lower k = ''chapter'' \<and>
        ws \<noteq> [] \<and> list_all is_space ws \<and> (is_digit c \<or> is_letter c)" ..
  with t have "t = u @ k @ ws @ c # r \<and> map lower k = ''chapter'' \<and> ws \<noteq> [] \<and>
        list_all is_space ws \<and> (is_digit c \<or> is_letter c)" by simp
  then show "\<exists>u k ws c r. t = u @ k @ ws @ c # r \<and> map lower k = ''chapter'' \<and> ws \<noteq> [] \<and>
        list_all is_space ws \<and> (is_digit c \<or> is_letter c)" by (intro exI)
next
  assume "\<exists>u k ws c r. t = u @ k @ ws @ c # r \<and> map lower k = ''chapter'' \<and> ws \<noteq> [] \<and>
        list_all is_space ws \<and> (is_digit c \<or> is_letter c)"
  then obtain u where "\<exists>k ws c r. t = u @ k @ ws @ c # r \<and> map lower k = ''chapter'' \<and>
        ws \<noteq> [] \<and> list_all is_space ws \<and> (is_digit c \<or> is_letter c)" ..
  then obtain k where "\<exists>ws c r. t = u @ k @ ws @ c # r \<and> map lower k = ''chapter'' \<and>
        ws \<noteq> [] \<and> list_all is_space ws \<and> (is_digit c \<or> is_letter c)" ..
  then obtain ws where "\<exists>c r. t = u @ k @ ws @ c # r \<and> map lower k = ''chapter'' \<and>
        ws \<noteq> [] \<and> list_all is_space ws \<and> (is_digit c \<or> is_letter c)" ..
  then obtain c where "\<exists>r. t = u @ k @ ws @ c # r \<and> map lower k = ''chapter'' \<and>
        ws \<noteq> [] \<and> list_all is_space ws \<and> (is_digit c \<or> is_letter c)" ..
  then obtain r where h: "t = u @ k @ ws @ c # r \<and> map lower k = ''chapter'' \<and>
        ws \<noteq> [] \<and> list_all is_space ws \<and> (is_digit c \<or> is_letter c)" ..
  note t = h [THEN conjunct1]
    and k = h [THEN conjunct2, THEN conjunct1]
    and ws = h [THEN conjunct2, THEN conjunct2, THEN conjunct1]
      h [THEN conjunct2, THEN conjunct2, THEN conjunct2, THEN conjunct1]
    and c = h [THEN conjunct2, THEN conjunct2, THEN conjunct2, THEN conjunct2]
  have "\<exists>k' ws' c' r'. k @ ws @ c # r = k' @ ws' @ c' # r' \<and> map lower k' = ''chapter'' \<and>
      ws' \<noteq> [] \<and> list_all is_space ws' \<and> (is_digit c' \<or> is_letter c')"
    using k ws c by (intro exI [of _ k] exI [of _ ws] exI [of _ c] exI [of _ r]) simp
  then have "chapter_kw_at (k @ ws @ c # r) \<noteq> None" unfolding chapter_kw_shape .
  then have "t = u @ (k @ ws @ c # r) \<and> k @ ws @ c # r \<noteq> [] \<and>
      chapter_kw_at (k @ ws @ c # r) \<noteq> None" using t by simp
  then have "\<exists>u v. t = u @ v \<and> v \<noteq> [] \<and> chapter_kw_at v \<noteq> None" by (intro exI)
  then show "has_match chapter_kw_at t" unfolding has_match_iff .
qed

lemma leading_digit: "takeWhile is_digit t \<noteq> [] \<longleftrightarrow> (\<exists>c r. t = c # r \<and> is_digit c)"
  by (cases t) simp_all

lemma is_chapter_shape:
  "isChapter (heading_section (el, following) i) \<longleftrightarrow>
     has_match chapter_kw_at (trim (text_of el)) \<or> takeWhile is_digit (trim (text_of el)) \<noteq> []"
proof (cases "first_match chapter_kw_at (trim (text_of el))")
  case None
  then have "\<not> has_match chapter_kw_at (trim (text_of el))"
    unfolding first_match_none .
  with None show ?thesis
    by (simp add: heading_section_def Let_def number_match_def)
next
  case (Some g)
  then have "has_match chapter_kw_at (trim (text_of el))" by (rule first_match_has_match)
  with Some show ?thesis
    by (simp add: heading_section_def Let_def)
qed

lemma generateId_keyword:
  assumes "first_match chapter_kw_at (trim (text_of el)) = Some tok"
  shows "generateId (heading_section (el, following) i) i = ''chapter-'' @ tok"
  using assms by (simp add: generateId_def heading_section_def Let_def)

lemma generateId_number:
  assumes "\<not> has_match chapter_kw_at (trim (text_of el))"
    and "trim (text_of el) = ds @ r" and "ds \<noteq> []" and "list_all is_digit ds"
    and "r = [] \<or> \<not> is_digit (hd r)"
  shows "generateId (heading_section (el, following) i) i = ''chapter-'' @ ds"
proof -
  have n: "first_match chapter_kw_at (trim (text_of el)) = None"
    unfolding first_match_none using assms(1) .
  have t: "takeWhile is_digit (trim (text_of el)) = ds"
    unfolding assms(2) using assms(4,5) by (rule run_takeWhile)
  show ?thesis
    using assms(3) by (simp add: generateId_def heading_section_def Let_def number_match_def n t)
qed

text \<open>
  Claim C10. For every input string the output of \<open>escapeHTML\<close> contains none of the
  characters \<^verbatim>\<open><\<close>, \<^verbatim>\<open>>\<close>, double quote and single quote, and at every position of the
  output that holds an ampersand one of the five emitted entities starts. An escaped
  annotation placed between double quotes therefore cannot close the attribute.
\<close>

theorem escapeHTML_safe:
  "set (escapeHTML s) \<inter> {CHR ''<'', CHR ''>'', CHR ''\"'', CHR 0x27} = {} \<and>
   (\<forall>i < length (escapeHTML s). escapeHTML s ! i = CHR ''&'' \<longrightarrow>
      (\<exists>e \<in> set entities. prefix e (drop i (escapeHTML s))))"
proof (intro conjI allI impI)
  show "set (escapeHTML s) \<inter> {CHR ''<'', CHR ''>'', CHR ''\"'', CHR 0x27} = {}"
    by (rule escapeHTML_no_special)
next
  fix i
  assume "i < length (escapeHTML s)" and "escapeHTML s ! i = CHR ''&''"
  then show "\<exists>e \<in> set entities. prefix e (drop i (escapeHTML s))"
    by (rule amp_ok_drop [OF amp_ok_escapeHTML])
qed

theorem escapeHTML_safe_witness:
  "escapeHTML ''a&\"b'' = ''a&amp;&quot;b'' \<and>
   (1::nat) < length (escapeHTML ''a&\"b'') \<and> escapeHTML ''a&\"b'' ! 1 = CHR ''&'' \<and>
   (\<exists>e \<in> set entities. prefix e (drop 1 (escapeHTML ''a&\"b'')))"
proof -
  have v: "escapeHTML ''a&\"b'' = ''a&amp;&quot;b''"
    by (simp add: escapeHTML_Cons esc_char_def)
  have l: "(1::nat) < length (escapeHTML ''a&\"b'')"
    by (simp add: v)
  have a: "escapeHTML ''a&\"b'' ! 1 = CHR ''&''"
    by (simp add: v)
  have e: "\<exists>e \<in> set entities. prefix e (drop 1 (escapeHTML ''a&\"b''))"
    by (rule escapeHTML_safe [of "''a&\"b''", THEN conjunct2, rule_format, OF l a])
  show ?thesis
    by (intro conjI) (rule v l a e)+
qed

section \<open>Claims on normalization and substitution\<close>

text \<open>
  Claim C3, as amended. For a numeral (a non-empty digit string) whose entry in the
  footnote mapping is a non-empty annotation, every marker of the numeral is replaced
  by the span of class \<^verbatim>\<open>conlang\<close> whose visible text is the numeral followed by
  \<^verbatim>\<open>F\<close> and whose \<^verbatim>\<open>data-tr\<close> payload is the escaped annotation: the markers
  \<^verbatim>\<open>[nF]\<close> and \<^verbatim>\<open>[n]\<close> wherever they stand, and the bare marker \<^verbatim>\<open>nF\<close> where it
  does not directly follow a digit, an \<^verbatim>\<open>F\<close> or a square bracket and no digit directly
  follows it. The text in front of the marker and the text behind it are processed on
  their own, and a text that holds no digit and no opening bracket is left as it is.
\<close>

theorem marker_substitution:
  assumes "n \<noteq> []" and "list_all is_digit n"
    and "map_get footMap n = Some t" and "t \<noteq> []"
  shows "processConlangInText (pre @ ''['' @ n @ ''F]'' @ post) footMap =
           processConlangInText pre footMap @
           span_html ''conlang'' (escapeHTML t) (n @ ''F'') @
           processConlangInText post footMap \<and>
         processConlangInText (pre @ ''['' @ n @ '']'' @ post) footMap =
           processConlangInText pre footMap @
           span_html ''conlang'' (escapeHTML t) (n @ ''F'') @
           processConlangInText post footMap \<and>
         ((pre = [] \<or> (\<not> is_digit (last pre) \<and> last pre \<notin> set ''F[]'')) \<and>
          (post = [] \<or> \<not> is_digit (hd post)) \<longrightarrow>
          processConlangInText (pre @ n @ ''F'' @ post) footMap =
            processConlangInText pre footMap @
            span_html ''conlang'' (escapeHTML t) (n @ ''F'') @
            processConlangInText post footMap) \<and>
         ((\<forall>c \<in> set s. \<not> is_digit c \<and> c \<noteq> CHR ''['') \<longrightarrow>
            processConlangInText s footMap = s)"
proof -
  have s: "conlang_span footMap n = span_html ''conlang'' (escapeHTML t) (n @ ''F'')"
    using assms(3,4) by (simp add: conlang_span_def)
  have 1: "processConlangInText (pre @ ''['' @ n @ ''F]'' @ post) footMap =
           processConlangInText pre footMap @
           span_html ''conlang'' (escapeHTML t) (n @ ''F'') @
           processConlangInText post footMap"
    using process_marker [OF assms(1,2), of pre post footMap] unfolding s .
  have 2: "processConlangInText (pre @ ''['' @ n @ '']'' @ post) footMap =
           processConlangInText pre footMap @
           span_html ''conlang'' (escapeHTML t) (n @ ''F'') @
           processConlangInText post footMap"
    using process_marker_plain [OF assms(1,2), of pre post footMap] unfolding s .
  have 3: "processConlangInText (pre @ n @ ''F'' @ post) footMap =
            processConlangInText pre footMap @
            span_html ''conlang'' (escapeHTML t) (n @ ''F'') @
            processConlangInText post footMap"
    if "(pre = [] \<or> (\<not> is_digit (last pre) \<and> last pre \<notin> set ''F[]'')) \<and>
          (post = [] \<or> \<not> is_digit (hd post))"
    using process_bare [OF assms(1,2), of pre post footMap] that unfolding s by simp
  have 4: "processConlangInText s footMap = s"
    if "\<forall>c \<in> set s. \<not> is_digit c \<and> c \<noteq> CHR ''[''"
    using that by (rule process_plain)
  show ?thesis
    by (intro conjI impI; (rule 1 | rule 2 | (rule 3, assumption) | (rule 4, assumption)))
qed

theorem marker_substitution_witness:
  "''3'' \<noteq> [] \<and> list_all is_digit ''3'' \<and>
   map_get [(''3'', ''greeting in conlang'')] ''3'' = Some ''greeting in conlang'' \<and>
   \<not> is_digit (last ''Hello '') \<and> last ''Hello '' \<notin> set ''F[]'' \<and>
   \<not> is_digit (hd '' world'') \<and>
   list_all (\<lambda>c. \<not> is_digit c \<and> c \<noteq> CHR ''['') ''Hello '' \<and>
   list_all (\<lambda>c. \<not> is_digit c \<and> c \<noteq> CHR ''['') '' world'' \<and>
   processConlangInText ''Hello [3F] world'' [(''3'', ''greeting in conlang'')] =
     ''Hello <span class=\"conlang\" data-tr=\"greeting in conlang\">3F</span> world'' \<and>
   processConlangInText ''Hello [3] world'' [(''3'', ''greeting in conlang'')] =
     ''Hello <span class=\"conlang\" data-tr=\"greeting in conlang\">3F</span> world'' \<and>
   processConlangInText ''Hello 3F world'' [(''3'', ''greeting in conlang'')] =
     ''Hello <span class=\"conlang\" data-tr=\"greeting in conlang\">3F</span> world''"
proof -
  let ?m = "[(''3'', ''greeting in conlang'')]"
  have h1: "''3'' \<noteq> []" by simp
  have h2: "list_all is_digit ''3''" by (simp add: is_digit_def)
  have h3: "map_get ?m ''3'' = Some ''greeting in conlang''"
    by (simp add: map_get_def)
  have h4: "''greeting in conlang'' \<noteq> []" by simp
  have h5: "\<not> is_digit (last ''Hello '') \<and> last ''Hello '' \<notin> set ''F[]''"
    by (simp add: is_digit_def)
  have h6: "\<not> is_digit (hd '' world'')" by (simp add: is_digit_def)
  have h7: "\<forall>c \<in> set ''Hello ''. \<not> is_digit c \<and> c \<noteq> CHR ''[''"
    by (simp add: is_digit_def)
  have h8: "\<forall>c \<in> set '' world''. \<not> is_digit c \<and> c \<noteq> CHR ''[''"
    by (simp add: is_digit_def)
  have e: "escapeHTML ''greeting in conlang'' = ''greeting in conlang''"
    by (simp add: escapeHTML_Cons esc_char_def)
  note t1 = marker_substitution [OF h1 h2 h3 h4, of "''Hello ''" "'' world''" "''Hello ''"]
  note t2 = marker_substitution [OF h1 h2 h3 h4, of "''Hello ''" "'' world''" "'' world''"]
  have p1: "processConlangInText ''Hello '' ?m = ''Hello ''"
    by (rule t1 [THEN conjunct2, THEN conjunct2, THEN conjunct2, THEN mp, OF h7])
  have p2: "processConlangInText '' world'' ?m = '' world''"
    by (rule t2 [THEN conjunct2, THEN conjunct2, THEN conjunct2, THEN mp, OF h8])
  have a: "processConlangInText ''Hello [3F] world'' ?m =
     ''Hello <span class=\"conlang\" data-tr=\"greeting in conlang\">3F</span> world''"
    using t1 [THEN conjunct1] by (simp add: p1 p2 e span_html_def)
  have b: "processConlangInText ''Hello [3] world'' ?m =
     ''Hello <span class=\"conlang\" data-tr=\"greeting in conlang\">3F</span> world''"
    using t1 [THEN conjunct2, THEN conjunct1] by (simp add: p1 p2 e span_html_def)
  have c: "processConlangInText ''Hello 3F world'' ?m =
     ''Hello <span class=\"conlang\" data-tr=\"greeting in conlang\">3F</span> world''"
    using t1 [THEN conjunct2, THEN conjunct2, THEN conjunct1, THEN mp,
        OF conjI [OF disjI2 [OF h5] disjI2 [OF h6]]]
    by (simp add: p1 p2 e span_html_def)
  have l7: "list_all (\<lambda>c. \<not> is_digit c \<and> c \<noteq> CHR ''['') ''Hello ''"
    using h7 by (simp only: list_all_iff)
  have l8: "list_all (\<lambda>c. \<not> is_digit c \<and> c \<noteq> CHR ''['') '' world''"
    using h8 by (simp only: list_all_iff)
  show ?thesis
    by (intro conjI) (rule h1 h2 h3 h5 [THEN conjunct1] h5 [THEN conjunct2] h6 l7 l8 a b c)+
qed

theorem empty_annotation_counterexample:
  "extractFootnotes [Element ''p'' [] [Text ''CO'', Element ''sub'' [] [Text ''2''], Text '' '']] =
     [(''2'', [])] \<and>
   map_get [(''2'', [])] ''2'' = Some [] \<and>
   processConlangInText ''see [2F]'' [(''2'', [])] =
     ''see <span class=\"conlang missing\" data-tr=\"[translation missing for 2]\">2F</span>'' \<and>
   processConlangInText ''see [2F]'' [(''2'', [])] \<noteq>
     ''see <span class=\"conlang\" data-tr=\"\">2F</span>''"
  by code_simp

text \<open>
  Claim C4, as amended. For a numeral with no entry in the footnote mapping (or with
  an empty one) every marker of the numeral is replaced by a span of class
  \<^verbatim>\<open>conlang missing\<close> whose visible text is the numeral followed by \<^verbatim>\<open>F\<close> and
  whose payload is the phrase in square brackets, \<^verbatim>\<open>[translation missing for n]\<close>:
  the markers \<^verbatim>\<open>[nF]\<close> and \<^verbatim>\<open>[n]\<close> wherever they stand, and the bare marker
  \<^verbatim>\<open>nF\<close> where it does not directly follow a digit, an \<^verbatim>\<open>F\<close> or a square bracket
  and no digit directly follows it. The function returns a text for every input.
\<close>

theorem missing_marker:
  assumes "n \<noteq> []" and "list_all is_digit n"
    and "map_get footMap n = None \<or> map_get footMap n = Some []"
  shows "processConlangInText (pre @ ''['' @ n @ ''F]'' @ post) footMap =
           processConlangInText pre footMap @
           span_html ''conlang missing'' (''[translation missing for '' @ n @ '']'') (n @ ''F'') @
           processConlangInText post footMap \<and>
         processConlangInText (pre @ ''['' @ n @ '']'' @ post) footMap =
           processConlangInText pre footMap @
           span_html ''conlang missing'' (''[translation missing for '' @ n @ '']'') (n @ ''F'') @
           processConlangInText post footMap \<and>
         ((pre = [] \<or> (\<not> is_digit (last pre) \<and> last pre \<notin> set ''F[]'')) \<and>
          (post = [] \<or> \<not> is_digit (hd post)) \<longrightarrow>
          processConlangInText (pre @ n @ ''F'' @ post) footMap =
            processConlangInText pre footMap @
            span_html ''conlang missing'' (''[translation missing for '' @ n @ '']'')
              (n @ ''F'') @
            processConlangInText post footMap)"
proof -
  have s: "conlang_span footMap n =
        span_html ''conlang missing'' (''[translation missing for '' @ n @ '']'') (n @ ''F'')"
    using assms(3) by (auto simp: conlang_span_def)
  have 1: "processConlangInText (pre @ ''['' @ n @ ''F]'' @ post) footMap =
           processConlangInText pre footMap @
           span_html ''conlang missing'' (''[translation missing for '' @ n @ '']'') (n @ ''F'') @
           processConlangInText post footMap"
    using process_marker [OF assms(1,2), of pre post footMap] unfolding s .
  have 2: "processConlangInText (pre @ ''['' @ n @ '']'' @ post) footMap =
           processConlangInText pre footMap @
           span_html ''conlang missing'' (''[translation missing for '' @ n @ '']'') (n @ ''F'') @
           processConlangInText post footMap"
    using process_marker_plain [OF assms(1,2), of pre post footMap] unfolding s .
  have 3: "processConlangInText (pre @ n @ ''F'' @ post) footMap =
            processConlangInText pre footMap @
            span_html ''conlang missing'' (''[translation missing for '' @ n @ '']'')
              (n @ ''F'') @
            processConlangInText post footMap"
    if "(pre = [] \<or> (\<not> is_digit (last pre) \<and> last pre \<notin> set ''F[]'')) \<and>
          (post = [] \<or> \<not> is_digit (hd post))"
    using process_bare [OF assms(1,2), of pre post footMap] that unfolding s by simp
  show ?thesis
    by (intro conjI impI; (rule 1 | rule 2 | (rule 3, assumption)))
qed

theorem missing_marker_witness:
  "''9'' \<noteq> [] \<and> list_all is_digit ''9'' \<and> map_get [(''1'', ''one'')] ''9'' = None \<and>
   \<not> is_digit (last ''see '') \<and> last ''see '' \<notin> set ''F[]'' \<and>
   processConlangInText ''see [9F]'' [(''1'', ''one'')] =
     ''see <span class=\"conlang missing\" data-tr=\"[translation missing for 9]\">9F</span>'' \<and>
   processConlangInText ''see [9]'' [(''1'', ''one'')] =
     ''see <span class=\"conlang missing\" data-tr=\"[translation missing for 9]\">9F</span>'' \<and>
   processConlangInText ''see 9F'' [(''1'', ''one'')] =
     ''see <span class=\"conlang missing\" data-tr=\"[translation missing for 9]\">9F</span>''"
proof -
  let ?m = "[(''1'', ''one'')]"
  have h1: "''9'' \<noteq> []" by simp
  have h2: "list_all is_digit ''9''" by (simp add: is_digit_def)
  have h3: "map_get ?m ''9'' = None" by (simp add: map_get_def)
  have h5: "\<not> is_digit (last ''see '') \<and> last ''see '' \<notin> set ''F[]''"
    by (simp add: is_digit_def)
  have p1: "processConlangInText ''see '' ?m = ''see ''"
    by (rule process_plain) (simp add: is_digit_def)
  have p2: "processConlangInText [] ?m = []" by (simp add: processConlangInText_def)
  note t = missing_marker [OF h1 h2 disjI1 [OF h3], of "''see ''" "[]"]
  have a: "processConlangInText ''see [9F]'' ?m =
     ''see <span class=\"conlang missing\" data-tr=\"[translation missing for 9]\">9F</span>''"
    using t [THEN conjunct1] by (simp add: p1 p2 span_html_def)
  have b: "processConlangInText ''see [9]'' ?m =
     ''see <span class=\"conlang missing\" data-tr=\"[translation missing for 9]\">9F</span>''"
    using t [THEN conjunct2, THEN conjunct1] by (simp add: p1 p2 span_html_def)
  have c: "processConlangInText ''see 9F'' ?m =
     ''see <span class=\"conlang missing\" data-tr=\"[translation missing for 9]\">9F</span>''"
    using t [THEN conjunct2, THEN conjunct2, THEN mp, OF conjI [OF disjI2 [OF h5] disjI1 [OF refl]]]
    by (simp add: p1 p2 span_html_def)
  show ?thesis
    by (intro conjI) (rule h1 h2 h3 h5 [THEN conjunct1] h5 [THEN conjunct2] a b c)+
qed

theorem missing_payload_counterexample:
  "map_get [(''1'', ''one'')] ''9'' = None \<and>
   processConlangInText ''see [9F]'' [(''1'', ''one'')] =
     ''see <span class=\"conlang missing\" data-tr=\"[translation missing for 9]\">9F</span>'' \<and>
   processConlangInText ''see [9F]'' [(''1'', ''one'')] \<noteq>
     ''see <span class=\"conlang missing\" data-tr=\"translation missing for 9\">9F</span>''"
  by code_simp

text \<open>
  Claim C5, as amended. In index.js a duplicated marker \<^verbatim>\<open>nFnF\<close> that does not
  directly follow a digit, an \<^verbatim>\<open>F\<close> or a square bracket is collapsed by
  \<open>normalizeRefs\<close> to the single marker \<^verbatim>\<open>nF\<close>, the text on both sides being
  normalized on its own; and
  \<open>processConlangInText\<close> collapses before it substitutes, so that the duplicated
  marker becomes one span. (\<open>cleanupArtifacts\<close> of converter.js deletes the
  duplicated marker instead.)
\<close>

theorem duplicate_collapse:
  assumes "n \<noteq> []" and "list_all is_digit n"
    and "pre = [] \<or> (\<not> is_digit (last pre) \<and> last pre \<notin> set ''F[]'')"
  shows "normalizeRefs (pre @ n @ ''F'' @ n @ ''F'' @ post) =
           normalizeRefs pre @ n @ ''F'' @ normalizeRefs post \<and>
         processConlangInText (pre @ n @ ''F'' @ n @ ''F'' @ post) footMap =
           processConlangInText pre footMap @ conlang_span footMap n @
           processConlangInText post footMap"
proof -
  from assms(3) have "pre = [] \<or> (\<not> is_digit (last pre) \<and> last pre \<noteq> CHR ''F'')"
    by auto
  from normalize_dup [OF assms(1,2) this] process_dup [OF assms]
  show ?thesis by blast
qed

theorem duplicate_collapse_witness:
  "''7'' \<noteq> [] \<and> list_all is_digit ''7'' \<and>
   (\<not> is_digit (last ''a '') \<and> last ''a '' \<notin> set ''F[]'') \<and>
   normalizeRefs ''a 7F7F b'' = ''a 7F b'' \<and>
   processConlangInText ''a 7F7F b'' [(''7'', ''seven'')] =
     ''a <span class=\"conlang\" data-tr=\"seven\">7F</span> b''"
proof -
  have h1: "''7'' \<noteq> []" by simp
  have h2: "list_all is_digit ''7''" by (simp add: is_digit_def)
  have h3: "\<not> is_digit (last ''a '') \<and> last ''a '' \<notin> set ''F[]''"
    by (simp add: is_digit_def)
  have a: "normalizeRefs ''a '' = ''a ''" "normalizeRefs '' b'' = '' b''"
    by (simp_all add: normalizeRefs_def dup_repl_def dup_at_def is_digit_def)
  have b: "processConlangInText ''a '' [(''7'', ''seven'')] = ''a ''"
    "processConlangInText '' b'' [(''7'', ''seven'')] = '' b''"
    by (simp_all add: process_plain is_digit_def)
  have c: "conlang_span [(''7'', ''seven'')] ''7'' = ''<span class=\"conlang\" data-tr=\"seven\">7F</span>''"
    by (simp add: conlang_span_def map_get_def span_html_def escapeHTML_Cons esc_char_def)
  from duplicate_collapse [OF h1 h2 disjI2 [OF h3], of "'' b''" "[(''7'', ''seven'')]"]
  have "normalizeRefs ''a 7F7F b'' = ''a 7F b'' \<and>
   processConlangInText ''a 7F7F b'' [(''7'', ''seven'')] =
     ''a <span class=\"conlang\" data-tr=\"seven\">7F</span> b''"
    by (simp add: a b c)
  with h1 h2 h3 show ?thesis by (intro conjI) simp_all
qed

theorem cleanup_deletes_counterexample:
  "cleanupArtifacts ''a 7F7F b'' = ''a  b'' \<and> cleanupArtifacts ''a 7F7F b'' \<noteq> ''a 7F b'' \<and>
   cleanupArtifacts ''7F7F'' = []"
  by code_simp

text \<open>
  Claim C6, as amended. A second run of the duplicate collapse changes nothing
  exactly when the first run has left no duplicated marker, for \<open>normalizeRefs\<close> and
  for \<open>cleanupArtifacts\<close>; a text without duplicated marker is left as it is; a run
  shortens the text whenever it finds a duplicated marker, so that repeated runs reach
  a fixed point. The rewriting of numeric reference elements into bracketed markers is
  idempotent.
\<close>

theorem normalize_idempotent_iff:
  "(normalizeRefs (normalizeRefs t) = normalizeRefs t \<longleftrightarrow>
      \<not> has_match dup_at (normalizeRefs t)) \<and>
   (cleanupArtifacts (cleanupArtifacts t) = cleanupArtifacts t \<longleftrightarrow>
      \<not> has_match dup_at (cleanupArtifacts t)) \<and>
   (\<not> has_match dup_at t \<longrightarrow> normalizeRefs t = t \<and> cleanupArtifacts t = t) \<and>
   (has_match dup_at t \<longrightarrow>
      length (normalizeRefs t) < length t \<and> length (cleanupArtifacts t) < length t) \<and>
   map clean_refs (map clean_refs doc) = map clean_refs doc"
proof (intro conjI impI)
  show "map clean_refs (map clean_refs doc) = map clean_refs doc"
    by (simp add: clean_refs_idem)
  show "normalizeRefs (normalizeRefs t) = normalizeRefs t \<longleftrightarrow>
      \<not> has_match dup_at (normalizeRefs t)"
    using replace_all_fixed_iff [OF dup_repl_shrinking, of "normalizeRefs t"]
    by (simp add: normalizeRefs_def has_match_dup_repl)
  show "cleanupArtifacts (cleanupArtifacts t) = cleanupArtifacts t \<longleftrightarrow>
      \<not> has_match dup_at (cleanupArtifacts t)"
    using replace_all_fixed_iff [OF artifact_repl_shrinking, of "cleanupArtifacts t"]
    by (simp add: cleanupArtifacts_def has_match_artifact_repl)
next
  assume "\<not> has_match dup_at t"
  then show "normalizeRefs t = t" "cleanupArtifacts t = t"
    by (simp_all add: normalizeRefs_def cleanupArtifacts_def replace_all_no_match
        has_match_dup_repl has_match_artifact_repl)
next
  assume "has_match dup_at t"
  then show "length (normalizeRefs t) < length t" "length (cleanupArtifacts t) < length t"
    using replace_all_shorter [OF dup_repl_shrinking, of t]
      replace_all_shorter [OF artifact_repl_shrinking, of t]
    by (simp_all add: normalizeRefs_def cleanupArtifacts_def
        has_match_dup_repl has_match_artifact_repl)
qed

theorem normalize_idempotent_iff_witness:
  "has_match dup_at ''a 7F7F b'' \<and> \<not> has_match dup_at (normalizeRefs ''a 7F7F b'') \<and>
   normalizeRefs (normalizeRefs ''a 7F7F b'') = normalizeRefs ''a 7F7F b'' \<and>
   length (normalizeRefs ''a 7F7F b'') < length ''a 7F7F b''"
proof -
  have h: "has_match dup_at ''a 7F7F b''" by code_simp
  have n: "\<not> has_match dup_at (normalizeRefs ''a 7F7F b'')" by code_simp
  from normalize_idempotent_iff [of "''a 7F7F b''"] h n show ?thesis by blast
qed

theorem normalize_not_idempotent_counterexample:
  "normalizeRefs ''7F7F7F7F'' = ''7F7F'' \<and> normalizeRefs (normalizeRefs ''7F7F7F7F'') = ''7F'' \<and>
   cleanupArtifacts ''1F2F2F1F'' = ''1F1F'' \<and> cleanupArtifacts (cleanupArtifacts ''1F2F2F1F'') = []"
  by code_simp

section \<open>Claim on the collision policy\<close>

text \<open>
  Claim C2, as amended. The footnote mapping is built last-wins. Every \<^verbatim>\<open>set\<close>
  overwrites the entry of its numeral; the entries of the superscript and subscript
  pass hide those of the selector pass; and the merged mapping binds a numeral to the
  annotation that \<open>extractFootnotes\<close> found in the cleaned document when there is
  one, and only otherwise to the annotation taken from a footnote section.
\<close>

theorem footMap_last_wins:
  "map_get (map_set m k v) k = Some v \<and>
   map_get (extractFootnotes doc) k =
     (case map_get (sup_pass [] doc) k of
        Some v \<Rightarrow> Some v
      | None \<Rightarrow> map_get (selector_pass [] doc) k) \<and>
   map_get (buildFootMap doc) k =
     (case map_get (extractFootnotes (fst (parseAndCleanFootnotes doc))) k of
        Some v \<Rightarrow> Some v
      | None \<Rightarrow> map_get (snd (parseAndCleanFootnotes doc)) k)"
proof (intro conjI)
  show "map_get (map_set m k v) k = Some v"
    by (simp add: map_get_map_set)
  show "map_get (extractFootnotes doc) k =
     (case map_get (sup_pass [] doc) k of
        Some v \<Rightarrow> Some v
      | None \<Rightarrow> map_get (selector_pass [] doc) k)"
    unfolding extractFootnotes_def by (rule sup_pass_last_wins)
  show "map_get (buildFootMap doc) k =
     (case map_get (extractFootnotes (fst (parseAndCleanFootnotes doc))) k of
        Some v \<Rightarrow> Some v
      | None \<Rightarrow> map_get (snd (parseAndCleanFootnotes doc)) k)"
  proof -
    let ?a = "snd (parseAndCleanFootnotes doc)"
    let ?b = "extractFootnotes (fst (parseAndCleanFootnotes doc))"
    have a: "new_Map ?a = ?a"
      by (rule new_Map_id [OF parse_footnotes_distinct])
    have b: "new_Map ?b = ?b"
      by (rule new_Map_id [OF extractFootnotes_distinct])
    have "map_get (buildFootMap doc) k = map_get (new_Map (?a @ ?b)) k"
      by (simp add: buildFootMap_def Let_def)
    also have "\<dots> = (case map_get (new_Map ?b) k of Some v \<Rightarrow> Some v
                      | None \<Rightarrow> map_get (new_Map ?a) k)"
      by (rule new_Map_append)
    finally show ?thesis unfolding a b .
  qed
qed

lemma sample_parse:
  "parseAndCleanFootnotes sample_doc =
     ([Element ''h1'' [] [Text ''Chapter 1''],
       Element ''p'' [] [Text ''Hello'', Text ''[1F]'', Text '' world''],
       Element ''p'' [(''class'', ''footnote'')] [Text ''[1] later''],
       Element ''p'' [] [Text ''CO'', Element ''sub'' [] [Text ''2''], Text '' '']],
      [(''1'', ''alpha''), (''2'', ''beta'')])"
  by code_simp

lemma sample_selector_pass:
  "selector_pass [] (fst (parseAndCleanFootnotes sample_doc)) = [(''1'', ''later'')]"
  unfolding sample_parse fst_conv by code_simp

lemma sample_extract:
  "extractFootnotes (fst (parseAndCleanFootnotes sample_doc)) = [(''1'', ''later''), (''2'', [])]"
  unfolding sample_parse fst_conv by code_simp

lemma sample_footMap: "buildFootMap sample_doc = [(''1'', ''later''), (''2'', [])]"
  unfolding buildFootMap_def Let_def sample_extract
  unfolding sample_parse snd_conv by code_simp

theorem footMap_witness:
  "map_get (snd (parseAndCleanFootnotes sample_doc)) ''1'' = Some ''alpha'' \<and>
   map_get (extractFootnotes (fst (parseAndCleanFootnotes sample_doc))) ''1'' = Some ''later'' \<and>
   map_get (buildFootMap sample_doc) ''1'' = Some ''later''"
proof -
  have a: "map_get (snd (parseAndCleanFootnotes sample_doc)) ''1'' = Some ''alpha''"
    unfolding sample_parse snd_conv by code_simp
  have b: "map_get (extractFootnotes (fst (parseAndCleanFootnotes sample_doc))) ''1'' = Some ''later''"
    unfolding sample_extract by code_simp
  from footMap_last_wins [of "[]" "''1''" "[]" sample_doc, THEN conjunct2, THEN conjunct2]
  have "map_get (buildFootMap sample_doc) ''1'' = Some ''later''"
    by (simp add: b)
  with a b show ?thesis by (intro conjI)
qed

theorem first_wins_counterexample:
  "map_get (snd (parseAndCleanFootnotes sample_doc)) ''1'' = Some ''alpha'' \<and>
   map_get (buildFootMap sample_doc) ''1'' = Some ''later'' \<and>
   map_get (selector_pass [] [Element ''p'' [(''id'', ''fn2'')] [Text ''2. water''],
                              Element ''p'' [] [Text ''H'', Element ''sub'' [] [Text ''2''], Text ''O'']])
     ''2'' = Some ''water'' \<and>
   map_get (extractFootnotes [Element ''p'' [(''id'', ''fn2'')] [Text ''2. water''],
                              Element ''p'' [] [Text ''H'', Element ''sub'' [] [Text ''2''], Text ''O'']])
     ''2'' = Some ''O''"
proof (intro conjI)
  show "map_get (snd (parseAndCleanFootnotes sample_doc)) ''1'' = Some ''alpha''"
    unfolding sample_parse snd_conv by code_simp
  show "map_get (buildFootMap sample_doc) ''1'' = Some ''later''"
    unfolding sample_footMap by code_simp
qed code_simp+

section \<open>Claim on footnote sections\<close>


section \<open>Claim on chapter headings\<close>

text \<open>
  Claim C8, as amended. In converter.js an \<^verbatim>\<open>h1\<close> or \<^verbatim>\<open>h2\<close> heading that is not
  an appendix heading opens a new chapter exactly when its text contains, in any
  letter case, the word \<^verbatim>\<open>chapter\<close>, then white space (the no-break space
  included) and then a word character. The token behind the first keyword is the run
  of word characters there, together with a hyphen and the next run of word
  characters when these follow directly; the token is the \<^verbatim>\<open>numericId\<close> of the new
  chapter and, in lower case, follows \<^verbatim>\<open>chapter-\<close> in its identifier. A heading
  that begins with a bare numeral opens no chapter there. In index.js every \<^verbatim>\<open>h1\<close>
  or \<^verbatim>\<open>h2\<close> heading gives a section, flagged as a chapter exactly when its text
  contains the keyword, white space and a digit or a letter, or begins with a digit
  (no punctuation is needed behind the numeral); the run of digits or the run of
  letters behind the first keyword, as written, or else the leading numeral, follows
  \<^verbatim>\<open>chapter-\<close> in the identifier.
\<close>

theorem chapter_opening:
  assumes "tag el = ''h1'' \<or> tag el = ''h2''" and "\<not> appendix_rx (trim (text_of el))"
  shows "(length (chapters (step render st (el, prev))) = Suc (length (chapters st)) \<longleftrightarrow>
            (\<exists>u k ws w r. trim (text_of el) = u @ k @ ws @ w # r \<and>
               map lower k = ''chapter'' \<and> ws \<noteq> [] \<and> list_all is_space ws \<and> is_word w)) \<and>
         (trim (text_of el) = u @ k @ ws @ w1 @ r \<and>
          \<not> contains ''chapter'' (map lower (u @ butlast k)) \<and>
          map lower k = ''chapter'' \<and> ws \<noteq> [] \<and> list_all is_space ws \<and>
          w1 \<noteq> [] \<and> list_all is_word w1 \<and>
          (r = [] \<or> (\<not> is_word (hd r) \<and>
             (hd r \<noteq> CHR ''-'' \<or> tl r = [] \<or> \<not> is_word (hd (tl r))))) \<longrightarrow>
            chapters (step render st (el, prev)) =
              chapters st @
                [\<lparr>title = trim (text_of el),
                  cid = ''chapter-'' @ map lower w1,
                  numericId = w1,
                  referenceId = (case find_bracket_num (render (children el)) of
                                   Some n \<Rightarrow> n | None \<Rightarrow> []),
                  content = []\<rparr>]) \<and>
         (trim (text_of el) = u @ k @ ws @ w1 @ CHR ''-'' # w2 @ r \<and>
          \<not> contains ''chapter'' (map lower (u @ butlast k)) \<and>
          map lower k = ''chapter'' \<and> ws \<noteq> [] \<and> list_all is_space ws \<and>
          w1 \<noteq> [] \<and> list_all is_word w1 \<and> w2 \<noteq> [] \<and> list_all is_word w2 \<and>
          (r = [] \<or> \<not> is_word (hd r)) \<longrightarrow>
            chapters (step render st (el, prev)) =
              chapters st @
                [\<lparr>title = trim (text_of el),
                  cid = ''chapter-'' @ map lower (w1 @ ''-'' @ w2),
                  numericId = w1 @ ''-'' @ w2,
                  referenceId = (case find_bracket_num (render (children el)) of
                                   Some n \<Rightarrow> n | None \<Rightarrow> []),
                  content = []\<rparr>]) \<and>
         (isChapter (heading_section (el, following) i) \<longleftrightarrow>
            (\<exists>u k ws c r. trim (text_of el) = u @ k @ ws @ c # r \<and>
               map lower k = ''chapter'' \<and> ws \<noteq> [] \<and> list_all is_space ws \<and>
               (is_digit c \<or> is_letter c)) \<or>
            (\<exists>c r. trim (text_of el) = c # r \<and> is_digit c)) \<and>
         (trim (text_of el) = u @ k @ ws @ tok @ r \<and>
          \<not> contains ''chapter'' (map lower (u @ butlast k)) \<and>
          map lower k = ''chapter'' \<and> ws \<noteq> [] \<and> list_all is_space ws \<and> tok \<noteq> [] \<and>
          (list_all is_digit tok \<and> (r = [] \<or> \<not> is_digit (hd r)) \<or>
           list_all is_letter tok \<and> (r = [] \<or> \<not> is_letter (hd r))) \<longrightarrow>
            generateId (heading_section (el, following) i) i = ''chapter-'' @ tok) \<and>
         (\<not> (\<exists>u k ws c r. trim (text_of el) = u @ k @ ws @ c # r \<and>
               map lower k = ''chapter'' \<and> ws \<noteq> [] \<and> list_all is_space ws \<and>
               (is_digit c \<or> is_letter c)) \<and>
          trim (text_of el) = ds @ r \<and> ds \<noteq> [] \<and> list_all is_digit ds \<and>
          (r = [] \<or> \<not> is_digit (hd r)) \<longrightarrow>
            generateId (heading_section (el, following) i) i = ''chapter-'' @ ds)"
proof (intro conjI impI; (elim conjE)?)
  have "length (chapters (step render st (el, prev))) = Suc (length (chapters st)) \<longleftrightarrow>
          has_match chapter_test_at (trim (text_of el))"
  proof (cases "has_match chapter_test_at (trim (text_of el))")
    case True
    with step_opens_chapter [OF assms, of render st prev] show ?thesis by simp
  next
    case False
    with step_no_chapter [of el render st prev] show ?thesis by simp
  qed
  then show "length (chapters (step render st (el, prev))) = Suc (length (chapters st)) \<longleftrightarrow>
            (\<exists>u k ws w r. trim (text_of el) = u @ k @ ws @ w # r \<and>
               map lower k = ''chapter'' \<and> ws \<noteq> [] \<and> list_all is_space ws \<and> is_word w)"
    unfolding heading_shape .
next
  assume t: "trim (text_of el) = u @ k @ ws @ w1 @ r"
    and nc: "\<not> contains ''chapter'' (map lower (u @ butlast k))"
    and k: "map lower k = ''chapter''" and ws: "ws \<noteq> []" "list_all is_space ws"
    and w1: "w1 \<noteq> []" "list_all is_word w1"
    and r: "r = [] \<or> (\<not> is_word (hd r) \<and>
             (hd r \<noteq> CHR ''-'' \<or> tl r = [] \<or> \<not> is_word (hd (tl r))))"
  have "chapter_at (k @ ws @ w1 @ r) = Some (w1, r)"
    using k ws w1 r by (rule chapter_at_plain)
  with nc k chapter_at_keyword have "first_match chapter_at (u @ k @ ws @ w1 @ r) = Some w1"
    by (rule first_match_first_keyword)
  then have "first_match chapter_at (trim (text_of el)) = Some w1" unfolding t .
  with assms show "chapters (step render st (el, prev)) =
              chapters st @
                [\<lparr>title = trim (text_of el),
                  cid = ''chapter-'' @ map lower w1,
                  numericId = w1,
                  referenceId = (case find_bracket_num (render (children el)) of
                                   Some n \<Rightarrow> n | None \<Rightarrow> []),
                  content = []\<rparr>]"
    by (rule step_chapter_token)
next
  assume t: "trim (text_of el) = u @ k @ ws @ w1 @ CHR ''-'' # w2 @ r"
    and nc: "\<not> contains ''chapter'' (map lower (u @ butlast k))"
    and k: "map lower k = ''chapter''" and ws: "ws \<noteq> []" "list_all is_space ws"
    and w1: "w1 \<noteq> []" "list_all is_word w1" and w2: "w2 \<noteq> []" "list_all is_word w2"
    and r: "r = [] \<or> \<not> is_word (hd r)"
  have "chapter_at (k @ ws @ w1 @ CHR ''-'' # w2 @ r) = Some (w1 @ ''-'' @ w2, r)"
    using k ws w1 w2 r by (rule chapter_at_hyphen)
  with nc k chapter_at_keyword
  have "first_match chapter_at (u @ k @ ws @ w1 @ CHR ''-'' # w2 @ r) = Some (w1 @ ''-'' @ w2)"
    by (rule first_match_first_keyword)
  then have "first_match chapter_at (trim (text_of el)) = Some (w1 @ ''-'' @ w2)"
    unfolding t .
  with assms show "chapters (step render st (el, prev)) =
              chapters st @
                [\<lparr>title = trim (text_of el),
                  cid = ''chapter-'' @ map lower (w1 @ ''-'' @ w2),
                  numericId = w1 @ ''-'' @ w2,
                  referenceId = (case find_bracket_num (render (children el)) of
                                   Some n \<Rightarrow> n | None \<Rightarrow> []),
                  content = []\<rparr>]"
    by (rule step_chapter_token)
next
  show "isChapter (heading_section (el, following) i) \<longleftrightarrow>
            (\<exists>u k ws c r. trim (text_of el) = u @ k @ ws @ c # r \<and>
               map lower k = ''chapter'' \<and> ws \<noteq> [] \<and> list_all is_space ws \<and>
               (is_digit c \<or> is_letter c)) \<or>
            (\<exists>c r. trim (text_of el) = c # r \<and> is_digit c)"
    unfolding heading_kw_shape [symmetric] leading_digit [symmetric]
    by (rule is_chapter_shape)
next
  assume t: "trim (text_of el) = u @ k @ ws @ tok @ r"
    and nc: "\<not> contains ''chapter'' (map lower (u @ butlast k))"
    and k: "map lower k = ''chapter''" and ws: "ws \<noteq> []" "list_all is_space ws"
    and tok: "tok \<noteq> []"
    and c: "list_all is_digit tok \<and> (r = [] \<or> \<not> is_digit (hd r)) \<or>
           list_all is_letter tok \<and> (r = [] \<or> \<not> is_letter (hd r))"
  from c have "chapter_kw_at (k @ ws @ tok @ r) = Some (tok, r)"
  proof
    assume "list_all is_digit tok \<and> (r = [] \<or> \<not> is_digit (hd r))"
    then show ?thesis
      using chapter_kw_digits [OF k ws tok] by (elim conjE)
  next
    assume "list_all is_letter tok \<and> (r = [] \<or> \<not> is_letter (hd r))"
    then show ?thesis
      using chapter_kw_letters [OF k ws tok] by (elim conjE)
  qed
  with nc k chapter_kw_at_keyword
  have "first_match chapter_kw_at (u @ k @ ws @ tok @ r) = Some tok"
    by (rule first_match_first_keyword)
  then have "first_match chapter_kw_at (trim (text_of el)) = Some tok" unfolding t .
  then show "generateId (heading_section (el, following) i) i = ''chapter-'' @ tok"
    by (rule generateId_keyword)
next
  assume "\<not> (\<exists>u k ws c r. trim (text_of el) = u @ k @ ws @ c # r \<and>
               map lower k = ''chapter'' \<and> ws \<noteq> [] \<and> list_all is_space ws \<and>
               (is_digit c \<or> is_letter c))"
  then have n: "\<not> has_match chapter_kw_at (trim (text_of el))"
    unfolding heading_kw_shape .
  assume "trim (text_of el) = ds @ r" and "ds \<noteq> []" and "list_all is_digit ds"
    and "r = [] \<or> \<not> is_digit (hd r)"
  with n show "generateId (heading_section (el, following) i) i = ''chapter-'' @ ds"
    by (rule generateId_number)
qed

theorem chapter_opening_witness:
  "tag (Element ''h2'' [] [Text ''Chapter Twenty-One'']) = ''h2'' \<and>
   \<not> appendix_rx (trim (text_of (Element ''h2'' [] [Text ''Chapter Twenty-One'']))) \<and>
   chapters (step (\<lambda>ns. [])
       \<lparr>stitle = ''Novel'', frontMatter = [], books = [], chapters = [], appendices = [],
        currentBook = None, inFrontMatter = True\<rparr>
       (Element ''h2'' [] [Text ''Chapter Twenty-One''], None)) =
     [\<lparr>title = ''Chapter Twenty-One'', cid = ''chapter-twenty-one'',
       numericId = ''Twenty-One'', referenceId = [], content = []\<rparr>] \<and>
   generateId (heading_section (Element ''h2'' [] [Text ''Chapter Twenty-One''], []) 0) 0
     = ''chapter-Twenty'' \<and>
   chapters (step (\<lambda>ns. [])
       \<lparr>stitle = ''Novel'', frontMatter = [], books = [], chapters = [], appendices = [],
        currentBook = None, inFrontMatter = True\<rparr>
       (Element ''h1'' [] [Text (''Chapter'' @ [CHR 0xA0] @ ''5: Dawn'')], None)) =
     [\<lparr>title = ''Chapter'' @ [CHR 0xA0] @ ''5: Dawn'', cid = ''chapter-5'',
       numericId = ''5'', referenceId = [], content = []\<rparr>] \<and>
   length (chapters (step (\<lambda>ns. [])
       \<lparr>stitle = ''Novel'', frontMatter = [], books = [], chapters = [], appendices = [],
        currentBook = None, inFrontMatter = True\<rparr>
       (Element ''h1'' [] [Text ''Chapter5''], None))) \<noteq> Suc 0 \<and>
   isChapter (heading_section (Element ''h1'' [] [Text (CHR 0xA0 # ''12 Angry Men'')], []) 0) \<and>
   generateId (heading_section (Element ''h1'' [] [Text (CHR 0xA0 # ''12 Angry Men'')], []) 0) 0
     = ''chapter-12''"
proof -
  let ?e1 = "Element ''h2'' [] [Text ''Chapter Twenty-One'']"
  let ?e2 = "Element ''h1'' [] [Text (''Chapter'' @ [CHR 0xA0] @ ''5: Dawn'')]"
  let ?e3 = "Element ''h1'' [] [Text ''Chapter5'']"
  let ?e4 = "Element ''h1'' [] [Text (CHR 0xA0 # ''12 Angry Men'')]"
  let ?st = "\<lparr>stitle = ''Novel'', frontMatter = [], books = [], chapters = [], appendices = [],
        currentBook = None, inFrontMatter = True\<rparr>"
  have g1: "tag ?e1 = ''h2''" and g2: "tag ?e2 = ''h1''" and g3: "tag ?e3 = ''h1''"
    and g4: "tag ?e4 = ''h1''" by simp_all
  have t1: "trim (text_of ?e1) = ''Chapter Twenty-One''" by code_simp
  have t2: "trim (text_of ?e2) = ''Chapter'' @ [CHR 0xA0] @ ''5: Dawn''" by code_simp
  have t3: "trim (text_of ?e3) = ''Chapter5''" by code_simp
  have t4: "trim (text_of ?e4) = ''12 Angry Men''" by code_simp
  have a1: "\<not> appendix_rx (trim (text_of ?e1))" by code_simp
  have a2: "\<not> appendix_rx (trim (text_of ?e2))" by code_simp
  have a3: "\<not> appendix_rx (trim (text_of ?e3))" by code_simp
  have a4: "\<not> appendix_rx (trim (text_of ?e4))" by code_simp
  have k: "map lower ''Chapter'' = ''chapter''" by code_simp
  have nc: "\<not> contains ''chapter'' (map lower ([] @ butlast ''Chapter''))" by code_simp
  have sp: "list_all is_space '' ''" "list_all is_space [CHR 0xA0]"
    by (simp_all add: is_space_def)
  have wd: "list_all is_word ''Twenty''" "list_all is_word ''One''" "list_all is_word ''5''"
    "\<not> is_word (hd '': Dawn'')"
    by (simp_all add: is_word_def)
  have lt: "list_all is_letter ''Twenty''" "\<not> is_letter (hd ''-One'')"
    by (simp_all add: is_letter_def)
  have dg: "list_all is_digit ''12''" "\<not> is_digit (hd '' Angry Men'')" "is_digit CHR ''1''"
    by (simp_all add: is_digit_def)
  have l1: "map lower (''Twenty'' @ ''-'' @ ''One'') = ''twenty-one''" by code_simp
  have l2: "map lower ''5'' = ''5''" by code_simp
  have c: "chapters ?st = []" "find_bracket_num [] = None" by simp_all
  have r1: "chapters (step (\<lambda>ns. []) ?st (?e1, None)) =
     [\<lparr>title = ''Chapter Twenty-One'', cid = ''chapter-twenty-one'',
       numericId = ''Twenty-One'', referenceId = [], content = []\<rparr>]"
  proof -
    have h: "trim (text_of ?e1) = [] @ ''Chapter'' @ '' '' @ ''Twenty'' @ CHR ''-'' # ''One'' @ [] \<and>
          \<not> contains ''chapter'' (map lower ([] @ butlast ''Chapter'')) \<and>
          map lower ''Chapter'' = ''chapter'' \<and> '' '' \<noteq> [] \<and> list_all is_space '' '' \<and>
          ''Twenty'' \<noteq> [] \<and> list_all is_word ''Twenty'' \<and> ''One'' \<noteq> [] \<and>
          list_all is_word ''One'' \<and> ([] = [] \<or> \<not> is_word (hd []))"
      using t1 nc k sp(1) wd(1,2) by simp
    show ?thesis
      using chapter_opening [where el = ?e1 and u = "[]" and k = "''Chapter''" and ws = "'' ''"
          and ?w1.0 = "''Twenty''" and ?w2.0 = "''One''" and r = "[]" and render = "\<lambda>ns. []"
          and st = ?st and prev = None,
          OF disjI2 [OF g1] a1, THEN conjunct2, THEN conjunct2, THEN conjunct1, THEN mp, OF h]
      unfolding t1 l1 c by simp
  qed
  have r2: "generateId (heading_section (?e1, []) 0) 0 = ''chapter-Twenty''"
  proof -
    have h: "trim (text_of ?e1) = [] @ ''Chapter'' @ '' '' @ ''Twenty'' @ ''-One'' \<and>
          \<not> contains ''chapter'' (map lower ([] @ butlast ''Chapter'')) \<and>
          map lower ''Chapter'' = ''chapter'' \<and> '' '' \<noteq> [] \<and> list_all is_space '' '' \<and>
          ''Twenty'' \<noteq> [] \<and>
          (list_all is_digit ''Twenty'' \<and> (''-One'' = [] \<or> \<not> is_digit (hd ''-One'')) \<or>
           list_all is_letter ''Twenty'' \<and> (''-One'' = [] \<or> \<not> is_letter (hd ''-One'')))"
      using t1 nc k sp(1) lt by simp
    show ?thesis
      using chapter_opening [where el = ?e1 and u = "[]" and k = "''Chapter''" and ws = "'' ''"
          and tok = "''Twenty''" and r = "''-One''" and following = "[]" and i = 0,
          OF disjI2 [OF g1] a1, THEN conjunct2, THEN conjunct2, THEN conjunct2, THEN conjunct2,
          THEN conjunct1, THEN mp, OF h]
      by simp
  qed
  have r3: "chapters (step (\<lambda>ns. []) ?st (?e2, None)) =
     [\<lparr>title = ''Chapter'' @ [CHR 0xA0] @ ''5: Dawn'', cid = ''chapter-5'',
       numericId = ''5'', referenceId = [], content = []\<rparr>]"
  proof -
    have h: "trim (text_of ?e2) = [] @ ''Chapter'' @ [CHR 0xA0] @ ''5'' @ '': Dawn'' \<and>
          \<not> contains ''chapter'' (map lower ([] @ butlast ''Chapter'')) \<and>
          map lower ''Chapter'' = ''chapter'' \<and> [CHR 0xA0] \<noteq> [] \<and>
          list_all is_space [CHR 0xA0] \<and> ''5'' \<noteq> [] \<and> list_all is_word ''5'' \<and>
          ('': Dawn'' = [] \<or> (\<not> is_word (hd '': Dawn'') \<and>
             (hd '': Dawn'' \<noteq> CHR ''-'' \<or> tl '': Dawn'' = [] \<or>
              \<not> is_word (hd (tl '': Dawn'')))))"
      using t2 nc k sp(2) wd(3,4) by simp
    show ?thesis
      using chapter_opening [where el = ?e2 and u = "[]" and k = "''Chapter''"
          and ws = "[CHR 0xA0]" and ?w1.0 = "''5''" and r = "'': Dawn''"
          and render = "\<lambda>ns. []" and st = ?st and prev = None,
          OF disjI1 [OF g2] a2, THEN conjunct2, THEN conjunct1, THEN mp, OF h]
      unfolding t2 l2 c by simp
  qed
  have r4: "length (chapters (step (\<lambda>ns. []) ?st (?e3, None))) \<noteq> Suc 0"
  proof -
    have "\<not> has_match chapter_test_at ''Chapter5''" by code_simp
    then have n: "\<not> (\<exists>u k ws w r. trim (text_of ?e3) = u @ k @ ws @ w # r \<and>
               map lower k = ''chapter'' \<and> ws \<noteq> [] \<and> list_all is_space ws \<and> is_word w)"
      unfolding heading_shape t3 .
    have "length (chapters (step (\<lambda>ns. []) ?st (?e3, None))) \<noteq> Suc (length (chapters ?st))"
      using chapter_opening [where el = ?e3 and render = "\<lambda>ns. []" and st = ?st and prev = None,
          OF disjI1 [OF g3] a3, THEN conjunct1] n by (simp only: simp_thms)
    then show ?thesis unfolding c list.size .
  qed
  have r5: "isChapter (heading_section (?e4, []) 0)"
  proof -
    have "trim (text_of ?e4) = CHR ''1'' # ''2 Angry Men'' \<and> is_digit CHR ''1''"
      using t4 dg(3) by simp
    then have "\<exists>c r. trim (text_of ?e4) = c # r \<and> is_digit c" by (intro exI)
    then show ?thesis
      using chapter_opening [where el = ?e4 and following = "[]" and i = 0,
          OF disjI1 [OF g4] a4, THEN conjunct2, THEN conjunct2, THEN conjunct2, THEN conjunct1]
      by (simp only: simp_thms)
  qed
  have r6: "generateId (heading_section (?e4, []) 0) 0 = ''chapter-12''"
  proof -
    have "\<not> has_match chapter_kw_at ''12 Angry Men''" by code_simp
    then have n: "\<not> (\<exists>u k ws c r. trim (text_of ?e4) = u @ k @ ws @ c # r \<and>
               map lower k = ''chapter'' \<and> ws \<noteq> [] \<and> list_all is_space ws \<and>
               (is_digit c \<or> is_letter c))"
      unfolding heading_kw_shape t4 .
    have h: "trim (text_of ?e4) = ''12'' @ '' Angry Men'' \<and> ''12'' \<noteq> [] \<and>
        list_all is_digit ''12'' \<and> ('' Angry Men'' = [] \<or> \<not> is_digit (hd '' Angry Men''))"
      using t4 dg(1,2) by simp
    show ?thesis
      using chapter_opening [where el = ?e4 and ds = "''12''" and r = "'' Angry Men''"
          and following = "[]" and i = 0,
          OF disjI1 [OF g4] a4, THEN conjunct2, THEN conjunct2, THEN conjunct2, THEN conjunct2,
          THEN conjunct2, THEN mp, OF conjI [OF n h]]
      by simp
  qed
  show ?thesis
    by (intro conjI) (rule g1 a1 r1 r2 r3 r4 r5 r6)+
qed

theorem bare_numeral_counterexample:
  "chapters (extractDocumentStructure (\<lambda>ns. [])
      [Element ''h1'' [] [Text ''1. The Start''], Element ''p'' [] [Text ''Once'']]) = [] \<and>
   frontMatter (extractDocumentStructure (\<lambda>ns. [])
      [Element ''h1'' [] [Text ''1. The Start''], Element ''p'' [] [Text ''Once'']]) =
     [\<lparr>ctype = ''h1'', chtml = []\<rparr>, \<lparr>ctype = ''p'', chtml = []\<rparr>] \<and>
   isChapter (heading_section (Element ''h1'' [] [Text ''12 Angry Men''], []) 0) \<and>
   generateId (heading_section (Element ''h1'' [] [Text ''12 Angry Men''], []) 0) 0 = ''chapter-12''"
  by code_simp
section \<open>Claims on partitioning and on interface tags\<close>

text \<open>
  Claim C1, at the inputs where the code loses a block. In converter.js a paragraph
  that follows a book heading, before any chapter or appendix heading, is put into no
  section: the structure computed for a book heading, a paragraph, a chapter heading
  and a second paragraph holds the second paragraph only. In index.js a paragraph in
  front of the first heading is in no section's content.
\<close>

theorem block_lost_after_book_heading:
  "extractDocumentStructure render
      [Element ''h1'' [] [Text ''Book One''], Element ''p'' [] [Text ''Intro''],
       Element ''h2'' [] [Text ''Chapter 1''], Element ''p'' [] [Text ''Text'']] =
     \<lparr>stitle = ''Novel'', frontMatter = [],
      books = [\<lparr>btitle = ''Book One'', bchapters = [0]\<rparr>],
      chapters =
        [\<lparr>title = ''Chapter 1'', cid = ''chapter-1'', numericId = ''1'',
          referenceId = (case find_bracket_num (render [Text ''Chapter 1'']) of
                           Some n \<Rightarrow> n | None \<Rightarrow> []),
          content = [\<lparr>ctype = ''p'', chtml = render [Text ''Text'']\<rparr>]\<rparr>],
      appendices = [], currentBook = Some 0, inFrontMatter = False\<rparr> \<and>
   map sec_content (parseChapters
      [Element ''p'' [] [Text ''Title page''], Element ''h1'' [] [Text ''Chapter 1''],
       Element ''p'' [] [Text ''Text'']]) = [[Element ''p'' [] [Text ''Text'']]]"
proof
  show "extractDocumentStructure render
      [Element ''h1'' [] [Text ''Book One''], Element ''p'' [] [Text ''Intro''],
       Element ''h2'' [] [Text ''Chapter 1''], Element ''p'' [] [Text ''Text'']] =
     \<lparr>stitle = ''Novel'', frontMatter = [],
      books = [\<lparr>btitle = ''Book One'', bchapters = [0]\<rparr>],
      chapters =
        [\<lparr>title = ''Chapter 1'', cid = ''chapter-1'', numericId = ''1'',
          referenceId = (case find_bracket_num (render [Text ''Chapter 1'']) of
                           Some n \<Rightarrow> n | None \<Rightarrow> []),
          content = [\<lparr>ctype = ''p'', chtml = render [Text ''Text'']\<rparr>]\<rparr>],
      appendices = [], currentBook = Some 0, inFrontMatter = False\<rparr>"
  proof -
    have blocks: "filter (\<lambda>ep. is_block (fst ep))
        (sibs None [Element ''h1'' [] [Text ''Book One''], Element ''p'' [] [Text ''Intro''],
                    Element ''h2'' [] [Text ''Chapter 1''], Element ''p'' [] [Text ''Text'']]) =
      [(Element ''h1'' [] [Text ''Book One''], None),
       (Element ''p'' [] [Text ''Intro''], Some (Element ''h1'' [] [Text ''Book One''])),
       (Element ''h2'' [] [Text ''Chapter 1''], Some (Element ''p'' [] [Text ''Intro''])),
       (Element ''p'' [] [Text ''Text''], Some (Element ''h2'' [] [Text ''Chapter 1'']))]"
      by code_simp
    have ttl: "doc_title [Element ''h1'' [] [Text ''Book One''], Element ''p'' [] [Text ''Intro''],
                    Element ''h2'' [] [Text ''Chapter 1''], Element ''p'' [] [Text ''Text'']] = ''Novel''"
      by code_simp
    have t: "trim ''Book One'' = ''Book One''" "trim ''Intro'' = ''Intro''"
      "trim ''Chapter 1'' = ''Chapter 1''" "trim ''Text'' = ''Text''"
      by code_simp+
    have a: "\<not> appendix_rx ''Book One''" "\<not> appendix_rx ''Intro''"
      "\<not> appendix_rx ''Chapter 1''" "\<not> appendix_rx ''Text''"
      by code_simp+
    have c: "\<not> has_match chapter_test_at ''Book One''" "\<not> has_match chapter_test_at ''Intro''"
      "has_match chapter_test_at ''Chapter 1''" "\<not> has_match chapter_test_at ''Text''"
      by code_simp+
    have b: "has_match book_at ''Book One''" by code_simp
    have n: "chapterNum ''Chapter 1'' = ''1''" "lower CHR ''1'' = CHR ''1''"
      "\<not> is_space CHR ''1''"
      by code_simp+
    show ?thesis
      unfolding extractDocumentStructure_def blocks ttl
      by (simp add: step_def Let_def t a b c n push_chapter_def push_appendix_def on_last_def
          del: has_match.simps)
  qed
  show "map sec_content (parseChapters
      [Element ''p'' [] [Text ''Title page''], Element ''h1'' [] [Text ''Chapter 1''],
       Element ''p'' [] [Text ''Text'']]) = [[Element ''p'' [] [Text ''Text'']]]"
    by code_simp
qed

text \<open>
  Claim C9, at an input where the code departs from it. A bracketed text that is no
  reference marker is replaced by a span of class \<^verbatim>\<open>ui\<close> whose content is the
  literal text \<^verbatim>\<open>[$1]\<close>, not the bracketed text; a reference marker is left as it
  is.
\<close>

theorem ui_span_loses_text:
  "tagUI ''Press [Enter] or see [3F]'' = ''Press <span class=\"ui\">[$1]</span> or see [3F]'' \<and>
   tagUI ''Press [Enter] or see [3F]'' \<noteq> ''Press <span class=\"ui\">[Enter]</span> or see [3F]''"
  by code_simp

end
